theory Spec2Isabelle
  imports Complex_Main "HOL-Library.Char_ord" "HOL-Library.List_Lexorder"
begin

section \<open>JavaScript values used by Graph.js\<close>

text \<open>
  A JavaScript number is modelled as an exact rational or one of the three
  non-finite doubles. Arithmetic on the finite part is exact: the rounding
  of doubles is outside this model. \<open>null\<close> is \<open>None\<close> of an option type.
\<close>

datatype jsnum = Fin rat | PInf | NInf | NaN

datatype js_error = RangeError | TypeError

text \<open>The operators \<open>+\<close>, unary \<open>-\<close>, \<open>Math.abs\<close>, \<open><\<close> and \<open>>=\<close> on numbers.\<close>

fun js_add :: "jsnum \<Rightarrow> jsnum \<Rightarrow> jsnum" where
  "js_add NaN _ = NaN"
| "js_add _ NaN = NaN"
| "js_add (Fin a) (Fin b) = Fin (a + b)"
| "js_add PInf NInf = NaN"
| "js_add NInf PInf = NaN"
| "js_add PInf _ = PInf"
| "js_add _ PInf = PInf"
| "js_add NInf _ = NInf"
| "js_add _ NInf = NInf"

fun js_neg :: "jsnum \<Rightarrow> jsnum" where
  "js_neg (Fin a) = Fin (- a)"
| "js_neg PInf = NInf"
| "js_neg NInf = PInf"
| "js_neg NaN = NaN"

definition js_sub :: "jsnum \<Rightarrow> jsnum \<Rightarrow> jsnum" where
  "js_sub a b = js_add a (js_neg b)"

fun js_abs :: "jsnum \<Rightarrow> jsnum" where
  "js_abs (Fin a) = Fin \<bar>a\<bar>"
| "js_abs PInf = PInf"
| "js_abs NInf = PInf"
| "js_abs NaN = NaN"

fun js_lt :: "jsnum \<Rightarrow> jsnum \<Rightarrow> bool" where
  "js_lt NaN _ = False"
| "js_lt _ NaN = False"
| "js_lt (Fin a) (Fin b) = (a < b)"
| "js_lt _ NInf = False"
| "js_lt PInf _ = False"
| "js_lt NInf _ = True"
| "js_lt _ PInf = True"

fun js_ge :: "jsnum \<Rightarrow> jsnum \<Rightarrow> bool" where
  "js_ge NaN _ = False"
| "js_ge _ NaN = False"
| "js_ge (Fin a) (Fin b) = (a \<ge> b)"
| "js_ge PInf _ = True"
| "js_ge _ NInf = True"
| "js_ge NInf _ = False"
| "js_ge _ PInf = False"

text \<open>
  Division and multiplication by a positive finite constant, the only
  divisors and factors the formatters use (units, bases and \<open>100\<close>).
\<close>

fun js_div_pos :: "jsnum \<Rightarrow> rat \<Rightarrow> jsnum" where
  "js_div_pos (Fin a) u = Fin (a / u)"
| "js_div_pos x u = x"

fun js_mul_pos :: "jsnum \<Rightarrow> rat \<Rightarrow> jsnum" where
  "js_mul_pos (Fin a) u = Fin (a * u)"
| "js_mul_pos x u = x"

text \<open>\<open>ToNumber\<close> of a value that is a number or \<open>null\<close>: \<open>null\<close> becomes \<open>0\<close>.\<close>

fun toNumber :: "jsnum option \<Rightarrow> jsnum" where
  "toNumber None = Fin 0"
| "toNumber (Some x) = x"

subsection \<open>Numbers to strings\<close>

definition digit_char :: "nat \<Rightarrow> char" where
  "digit_char d = ''0123456789'' ! (d mod 10)"

function digits10 :: "nat \<Rightarrow> string" where
  "digits10 n = (if n < 10 then [digit_char n]
                 else digits10 (n div 10) @ [digit_char (n mod 10)])"
  by pat_completeness auto
termination
  by (relation "measure id") auto

declare digits10.simps [simp del]

text \<open>\<open>ToString\<close> of an integer-valued number below \<open>10^21\<close> in magnitude.\<close>

definition js_toString_int :: "int \<Rightarrow> string" where
  "js_toString_int i = (if i < 0 then CHR ''-'' # digits10 (nat (- i)) else digits10 (nat i))"

text \<open>
  \<open>Number.prototype.toFixed\<close> on a finite number: the sign is split off, the
  magnitude is scaled by \<open>10^f\<close> and rounded to the nearest integer (the
  larger one on a tie), and the digits are padded with zeros so that \<open>f\<close>
  of them follow the point. Magnitudes from \<open>10^21\<close> on, which JavaScript
  prints in exponent notation, are printed in full here.
\<close>

definition js_toFixed_fin :: "rat \<Rightarrow> nat \<Rightarrow> string" where
  "js_toFixed_fin x f =
     (let n = nat \<lfloor>\<bar>x\<bar> * 10 ^ f + 1 / 2\<rfloor>;
          m = digits10 n;
          m' = replicate (f + 1 - length m) CHR ''0'' @ m;
          k = length m' - f
      in (if x < 0 then ''-'' else '''') @
         (if f = 0 then m else take k m' @ ''.'' @ drop k m'))"

fun js_toFixed :: "jsnum \<Rightarrow> nat \<Rightarrow> string" where
  "js_toFixed (Fin x) f = js_toFixed_fin x f"
| "js_toFixed PInf f = ''Infinity''"
| "js_toFixed NInf f = ''-Infinity''"
| "js_toFixed NaN f = ''NaN''"

text \<open>\<open>Math.round\<close> followed by the string conversion of a template literal.\<close>

fun js_round_toString :: "jsnum \<Rightarrow> string" where
  "js_round_toString (Fin x) = js_toString_int \<lfloor>x + 1 / 2\<rfloor>"
| "js_round_toString PInf = ''Infinity''"
| "js_round_toString NInf = ''-Infinity''"
| "js_round_toString NaN = ''NaN''"

text \<open>\<open>Array.prototype.find\<close>: the first element satisfying the predicate.\<close>

fun js_find :: "('a \<Rightarrow> bool) \<Rightarrow> 'a list \<Rightarrow> 'a option" where
  "js_find P [] = None"
| "js_find P (x # xs) = (if P x then Some x else js_find P xs)"

section \<open>parseGraphValue\<close>

text \<open>
  A raw sample value is text or a number. \<open>parseFloat\<close> converts its
  argument to a string first; for a number that round trip gives the number
  back. For text it skips leading white space and reads the longest prefix
  that is a signed decimal literal or a signed \<open>Infinity\<close>; with no such
  prefix the result is \<open>NaN\<close>.
\<close>

datatype rawval = Text string | Number jsnum

definition is_space :: "char \<Rightarrow> bool" where
  "is_space c = (c \<in> set [CHR '' '', CHR 0x09, CHR 0x0A, CHR 0x0B, CHR 0x0C, CHR 0x0D])"

definition is_digit :: "char \<Rightarrow> bool" where
  "is_digit c = (c \<in> set ''0123456789'')"

definition digit_val :: "char \<Rightarrow> nat" where
  "digit_val c = of_char c - 48"

definition digits_val :: "string \<Rightarrow> nat" where
  "digits_val ds = foldl (\<lambda>acc c. 10 * acc + digit_val c) 0 ds"

definition split_sign :: "string \<Rightarrow> bool \<times> string" where
  "split_sign s = (case s of
       c # r \<Rightarrow> (if c = CHR ''-'' then (True, r) else if c = CHR ''+'' then (False, r) else (False, s))
     | [] \<Rightarrow> (False, s))"

text \<open>The exponent part \<open>[eE][+-]?digits\<close>; it counts only when a digit is there.\<close>

definition exponent_part :: "string \<Rightarrow> int" where
  "exponent_part s = (case s of
       c # r \<Rightarrow>
         (if c = CHR ''e'' \<or> c = CHR ''E'' then
            (let (neg, r') = split_sign r; ds = takeWhile is_digit r'
             in if ds = [] then 0
                else if neg then - int (digits_val ds) else int (digits_val ds))
          else 0)
     | [] \<Rightarrow> 0)"

definition pow10 :: "int \<Rightarrow> rat" where
  "pow10 e = (if e < 0 then 1 / 10 ^ nat (- e) else 10 ^ nat e)"

definition parseFloat_text :: "string \<Rightarrow> jsnum" where
  "parseFloat_text s =
     (let (neg, u) = split_sign (dropWhile is_space s)
      in if take 8 u = ''Infinity'' then (if neg then NInf else PInf)
         else
           (let ip = takeWhile is_digit u;
                r1 = dropWhile is_digit u;
                has_point = (r1 \<noteq> [] \<and> hd r1 = CHR ''.'');
                fp = (if has_point then takeWhile is_digit (tl r1) else []);
                r2 = (if has_point then dropWhile is_digit (tl r1) else r1)
            in if ip = [] \<and> fp = [] then NaN
               else
                 (let mant = of_nat (digits_val ip) + of_nat (digits_val fp) / 10 ^ length fp;
                      v = mant * pow10 (exponent_part r2)
                  in Fin (if neg then - v else v))))"

fun parseFloat :: "rawval \<Rightarrow> jsnum" where
  "parseFloat (Text s) = parseFloat_text s"
| "parseFloat (Number x) = x"

definition parseGraphValue :: "rawval \<Rightarrow> jsnum option" where
  "parseGraphValue v = (let val = parseFloat v in if val = NaN then None else Some val)"

section \<open>valueFormatters\<close>

text \<open>
  Each scheme takes the reference magnitude and returns the rendering
  function; the rendering function takes a number or \<open>null\<close>.
\<close>

definition bigNumbers :: "(string \<times> rat) list" where
  "bigNumbers = [(''T'', 1000000000000), (''G'', 1000000000), (''M'', 1000000), (''k'', 1000)]"

definition smallNumbers :: "(rat \<times> nat) list" where
  "smallNumbers = [(1, 0), (1 / 10, 1), (1 / 100, 2), (1 / 1000, 3), (1 / 10000, 4)]"

definition valueFormatters_none :: "jsnum \<Rightarrow> jsnum option \<Rightarrow> string" where
  "valueFormatters_none number =
     (let bigNumber = js_find (\<lambda>(label, unit). js_ge (js_div_pos number unit) (Fin 2)) bigNumbers;
          smallNumber = js_find (\<lambda>(base, prec). js_ge (js_div_pos number base) (Fin 2)) smallNumbers;
          (baseUnit, precision, unitLabel) =
            (case bigNumber of
               Some (label, unit) \<Rightarrow> (unit, 0, label)
             | None \<Rightarrow>
                 (case smallNumber of
                    Some (base, prec) \<Rightarrow> (1, prec, '''')
                  | None \<Rightarrow> (1, 4, '''')))
      in (\<lambda>n. case n of
            None \<Rightarrow> ''---''
          | Some x \<Rightarrow>
              if x = Fin 0 then ''0''
              else js_toFixed (js_div_pos x baseUnit) precision @ '' '' @ unitLabel))"

definition byteUnits :: "(string \<times> rat) list" where
  "byteUnits = [(''TB'', 1024 * 1024 * 1024 * 1024), (''GB'', 1024 * 1024 * 1024),
                (''MB'', 1024 * 1024), (''kB'', 1024), (''B'', 1)]"

definition valueFormatters_bytes :: "jsnum \<Rightarrow> jsnum option \<Rightarrow> string" where
  "valueFormatters_bytes bytes =
     (let data = js_find (\<lambda>(label, unit). js_ge (js_div_pos bytes unit) (Fin 2)) byteUnits
      in (\<lambda>n. case n of
            None \<Rightarrow> ''---''
          | Some x \<Rightarrow>
              (case data of
                 None \<Rightarrow> ''0''
               | Some (label, unit) \<Rightarrow> js_round_toString (js_div_pos x unit) @ '' '' @ label)))"

definition valueFormatters_percent :: "jsnum option \<Rightarrow> string" where
  "valueFormatters_percent n =
     (case n of
        None \<Rightarrow> ''---''
      | Some x \<Rightarrow> if x = Fin 0 then ''0%'' else js_toFixed (js_mul_pos x 100) 2 @ ''%'')"

section \<open>Library functions called by the component\<close>

text \<open>
  \<open>range(start, end, step)\<close> of lodash: \<open>max(ceil((end - start) / (step || 1)), 0)\<close>
  elements, the first is \<open>start\<close> and each next one adds \<open>step\<close>. The
  component calls it with an integer start and step, so every element is
  an integer.
\<close>

definition lodash_range :: "int \<Rightarrow> rat \<Rightarrow> int \<Rightarrow> int list" where
  "lodash_range start end step =
     (let len = nat (max \<lceil>(end - of_int start) / of_int (if step = 0 then 1 else step)\<rceil> 0)
      in map (\<lambda>i. start + int i * step) [0..<len])"

text \<open>
  \<open>Array.prototype.sort\<close> without a comparison function orders the elements
  by their string conversions, compared as strings.
\<close>

definition js_sort_numbers :: "int list \<Rightarrow> int list" where
  "js_sort_numbers xs = sort_key js_toString_int xs"

definition js_sort_strings :: "string list \<Rightarrow> string list" where
  "js_sort_strings xs = sort xs"

text \<open>An array read: \<open>None\<close> is the \<open>undefined\<close> of an index out of range.\<close>

definition nth_opt :: "'a list \<Rightarrow> nat \<Rightarrow> 'a option" where
  "nth_opt xs i = (if i < length xs then Some (xs ! i) else None)"

text \<open>
  \<open>bisectRight(a, x, lo, hi)\<close> of d3-array, the binary search behind
  \<open>scaleQuantize\<close>. Every index read lies below \<open>hi\<close>, which the caller
  sets to the length of \<open>a\<close>.
\<close>

function bisectRight :: "rat list \<Rightarrow> rat \<Rightarrow> nat \<Rightarrow> nat \<Rightarrow> nat" where
  "bisectRight a x lo hi =
     (if lo < hi then
        (let mid = (lo + hi) div 2
         in if a ! mid > x then bisectRight a x lo mid else bisectRight a x (mid + 1) hi)
      else lo)"
  by pat_completeness auto
termination
  by (relation "measure (\<lambda>(a, x, lo, hi). hi - lo)") auto

declare bisectRight.simps [simp del]

text \<open>
  \<open>sortedIndex(array, value)\<close> of lodash for a number: the binary search of
  \<open>baseSortedIndex\<close>.
\<close>

function baseSortedIndex :: "int list \<Rightarrow> int \<Rightarrow> nat \<Rightarrow> nat \<Rightarrow> nat" where
  "baseSortedIndex array v low high =
     (if low < high then
        (let mid = (low + high) div 2
         in if array ! mid < v then baseSortedIndex array v (mid + 1) high
            else baseSortedIndex array v low mid)
      else high)"
  by pat_completeness auto
termination
  by (relation "measure (\<lambda>(a, v, low, high). high - low)") auto

declare baseSortedIndex.simps [simp del]

definition sortedIndex :: "int list \<Rightarrow> int \<Rightarrow> nat" where
  "sortedIndex array v = baseSortedIndex array v 0 (length array)"

text \<open>
  \<open>scaleQuantize().domain([x0, x1]).range(r)\<close> of d3-scale: with
  \<open>n = r.length - 1\<close> it allocates \<open>n\<close> thresholds, which throws a
  \<open>RangeError\<close> for an empty range, and the scale maps \<open>x\<close> to
  \<open>r[bisectRight(thresholds, x, 0, n)]\<close>.
\<close>

record quantizer =
  q_domain :: "rat list"
  q_range :: "int list"

definition scaleQuantize :: "rat \<Rightarrow> rat \<Rightarrow> int list \<Rightarrow> js_error + quantizer" where
  "scaleQuantize x0 x1 r =
     (if r = [] then Inl RangeError
      else
        (let n = length r - 1
         in Inr \<lparr>q_domain =
                   map (\<lambda>i. ((of_nat i + 1) * x1 - (of_nat i - of_nat n) * x0) / (of_nat n + 1)) [0..<n],
                 q_range = r\<rparr>))"

definition quantize :: "quantizer \<Rightarrow> rat \<Rightarrow> int option" where
  "quantize q x = nth_opt (q_range q) (bisectRight (q_domain q) x 0 (length (q_range q) - 1))"

section \<open>The time grid: getTimestampQuantizer\<close>

text \<open>
  The window parameters are unix timestamps in whole seconds, which doubles
  hold exactly.
\<close>

record window =
  startTimeSec :: int
  endTimeSec :: int
  stepDurationSec :: int

definition timestampSecs :: "'a window_scheme \<Rightarrow> int list" where
  "timestampSecs w =
     js_sort_numbers
       (lodash_range (endTimeSec w) (of_int (startTimeSec w) - 1 / 1000000) (- stepDurationSec w))"

text \<open>
  \<open>first\<close> and \<open>last\<close> of an empty grid are \<open>undefined\<close>; the domain is then
  \<open>NaN\<close> and the empty range makes \<open>scaleQuantize\<close> throw.
\<close>

definition getTimestampQuantizer :: "'a window_scheme \<Rightarrow> js_error + quantizer" where
  "getTimestampQuantizer w =
     (let ts = timestampSecs w
      in if ts = [] then Inl RangeError
         else
           (let startDomain = of_int (hd ts) - (1 / 2) * of_int (stepDurationSec w);
                endDomain = of_int (last ts) + (1 / 2) * of_int (stepDurationSec w)
            in scaleQuantize startDomain endDomain ts))"

section \<open>Alignment and stacking: processMultiSeries\<close>

datatype theme = Mixed | Blue | Purple

definition colorThemes :: "theme \<Rightarrow> nat \<Rightarrow> string" where
  "colorThemes t index =
     (let colors =
        (case t of
           Mixed \<Rightarrow>
             [''hsl(209, 44%, 83%)'', ''hsl(98, 55%, 81%)'', ''hsl(210, 45%, 74%)'',
              ''hsl(166, 44%, 65%)'', ''hsl(230, 34%, 66%)'', ''hsl(196, 84%, 52%)'',
              ''hsl(240, 20%, 59%)'', ''hsl(197, 74%, 43%)'', ''hsl(261, 39%, 44%)'',
              ''hsl(213, 66%, 40%)'', ''hsl(261, 68%, 29%)'', ''hsl(232, 60%, 36%)'',
              ''hsl(248, 82%, 11%)'', ''hsl(212, 88%, 27%)'']
         | Blue \<Rightarrow>
             [''hsl(98, 55%, 81%)'', ''hsl(166, 44%, 65%)'', ''hsl(196, 84%, 52%)'',
              ''hsl(197, 74%, 43%)'', ''hsl(213, 66%, 40%)'', ''hsl(232, 60%, 36%)'',
              ''hsl(212, 88%, 27%)'']
         | Purple \<Rightarrow>
             [''hsl(209, 44%, 83%)'', ''hsl(210, 45%, 74%)'', ''hsl(230, 34%, 66%)'',
              ''hsl(240, 20%, 59%)'', ''hsl(286, 41%, 44%)'', ''hsl(303, 79%, 28%)'',
              ''hsl(248, 82%, 11%)''])
      in colors ! (index mod length colors))"

text \<open>
  An input series carries its metadata and its samples \<open>[timestamp, rawValue]\<close>;
  the caller's \<open>getSeriesName\<close> derives its name.
\<close>

record 'm input_series =
  metric :: 'm
  series_values :: "(rat \<times> rawval) list"

record 'm props = window +
  multiSeries :: "'m input_series list"
  getSeriesName :: "'m input_series \<Rightarrow> string"
  colorTheme :: theme
  showStacked :: bool
  simpleTooltip :: bool

record datapoint =
  dp_timestampSec :: int
  dp_value :: "jsnum option"
  dp_offset :: jsnum

record aligned_series =
  s_name :: string
  s_key :: string
  s_color :: string
  s_datapoints :: "datapoint list"

text \<open>
  \<open>valuesByTimestamp\<close> is an object keyed by grid timestamp; each row maps
  the series names to a number or \<open>null\<close>. (The row also holds its own
  \<open>timestampSec\<close>, which is its key here; a series must not be named
  \<open>timestampSec\<close>.)
\<close>

type_synonym row = "string \<rightharpoonup> jsnum option"
type_synonym values_by_timestamp = "int \<rightharpoonup> row"

definition initialValues :: "int list \<Rightarrow> string list \<Rightarrow> values_by_timestamp" where
  "initialValues tss names =
     fold (\<lambda>timestampSec m. m(timestampSec \<mapsto> fold (\<lambda>seriesName r. r(seriesName \<mapsto> None)) names Map.empty))
       tss Map.empty"

fun foldM_err :: "('a \<Rightarrow> 's \<Rightarrow> js_error + 's) \<Rightarrow> 'a list \<Rightarrow> 's \<Rightarrow> js_error + 's" where
  "foldM_err f [] s = Inr s"
| "foldM_err f (x # xs) s = (case f x s of Inl e \<Rightarrow> Inl e | Inr s' \<Rightarrow> foldM_err f xs s')"

fun mapM_err :: "('a \<Rightarrow> js_error + 'b) \<Rightarrow> 'a list \<Rightarrow> js_error + 'b list" where
  "mapM_err f [] = Inr []"
| "mapM_err f (x # xs) =
     (case f x of
        Inl e \<Rightarrow> Inl e
      | Inr y \<Rightarrow> (case mapM_err f xs of Inl e \<Rightarrow> Inl e | Inr ys \<Rightarrow> Inr (y # ys)))"

text \<open>
  One sample of the series at position \<open>seriesIndex\<close> of the input: its
  value is stored under \<open>multiSeriesNames[seriesIndex]\<close>. The index is below
  the length of the names, which are as many as the input series. Writing
  into the row of an \<open>undefined\<close> timestamp or of a missing row throws.
\<close>

definition storePoint ::
  "quantizer \<Rightarrow> string list \<Rightarrow> nat \<Rightarrow> rat \<times> rawval \<Rightarrow> values_by_timestamp \<Rightarrow> js_error + values_by_timestamp" where
  "storePoint q multiSeriesNames seriesIndex point vbt =
     (let v = parseGraphValue (snd point)
      in case quantize q (fst point) of
           None \<Rightarrow> Inl TypeError
         | Some timestampSec \<Rightarrow>
             (let seriesName = multiSeriesNames ! seriesIndex
              in case vbt timestampSec of
                   None \<Rightarrow> Inl TypeError
                 | Some r \<Rightarrow> Inr (vbt(timestampSec \<mapsto> r(seriesName \<mapsto> v)))))"

definition storeSeries ::
  "quantizer \<Rightarrow> string list \<Rightarrow> 'm input_series \<times> nat \<Rightarrow> values_by_timestamp \<Rightarrow> js_error + values_by_timestamp" where
  "storeSeries q multiSeriesNames si vbt =
     foldM_err (storePoint q multiSeriesNames (snd si)) (series_values (fst si)) vbt"

text \<open>
  \<open>sortBy(values(valuesByTimestamp), ['timestampSec'])\<close>: the rows of the
  object, one for each distinct grid timestamp, in ascending numeric order.
\<close>

definition valuesForStacking :: "int list \<Rightarrow> values_by_timestamp \<Rightarrow> row list" where
  "valuesForStacking tss vbt = List.map_filter vbt (sort (remdups tss))"

text \<open>
  \<open>stack().keys(keys)\<close> of d3-shape with its default value accessor, order
  and offset: series \<open>i\<close> starts as the pairs \<open>[0, +d[key]]\<close> over the rows
  \<open>d\<close>, and from the second series on each pair is put on top of the pair
  below it.
\<close>

definition stackValue :: "row \<Rightarrow> string \<Rightarrow> jsnum" where
  "stackValue d k = (case d k of None \<Rightarrow> NaN | Some v \<Rightarrow> toNumber v)"

fun offsetNone_from :: "(jsnum \<times> jsnum) list \<Rightarrow> (jsnum \<times> jsnum) list list \<Rightarrow> (jsnum \<times> jsnum) list list" where
  "offsetNone_from s0 [] = []"
| "offsetNone_from s0 (s1 # rest) =
     (let s1' = map2 (\<lambda>(a0, b0) (a1, b1).
                        let y0 = (if b0 = NaN then a0 else b0) in (y0, js_add b1 y0)) s0 s1
      in s1' # offsetNone_from s1' rest)"

definition d3_stack :: "string list \<Rightarrow> row list \<Rightarrow> (jsnum \<times> jsnum) list list" where
  "d3_stack keys data =
     (case map (\<lambda>k. map (\<lambda>d. (Fin 0, stackValue d k)) data) keys of
        [] \<Rightarrow> []
      | s0 # rest \<Rightarrow> s0 # offsetNone_from s0 rest)"

text \<open>
  The datapoint of one series at one grid position. The row always holds
  the series name, since every row was initialised with every name.
\<close>

definition makeDatapoint ::
  "values_by_timestamp \<Rightarrow> (jsnum \<times> jsnum) list list \<Rightarrow> string \<Rightarrow> nat \<Rightarrow> int \<times> nat \<Rightarrow> js_error + datapoint" where
  "makeDatapoint vbt stackedData seriesName seriesIndex ti =
     (case vbt (fst ti) of
        None \<Rightarrow> Inl TypeError
      | Some r \<Rightarrow>
          (case nth_opt stackedData seriesIndex of
             None \<Rightarrow> Inl TypeError
           | Some sd \<Rightarrow>
               (case nth_opt sd (snd ti) of
                  None \<Rightarrow> Inl TypeError
                | Some y \<Rightarrow>
                    Inr \<lparr>dp_timestampSec = fst ti,
                         dp_value = (case r seriesName of Some v \<Rightarrow> v | None \<Rightarrow> None),
                         dp_offset = fst y\<rparr>)))"

definition enumerate_from0 :: "'a list \<Rightarrow> ('a \<times> nat) list" where
  "enumerate_from0 xs = zip xs [0..<length xs]"

definition makeSeries ::
  "theme \<Rightarrow> int list \<Rightarrow> values_by_timestamp \<Rightarrow> (jsnum \<times> jsnum) list list \<Rightarrow> string \<times> nat \<Rightarrow> js_error + aligned_series" where
  "makeSeries th tss vbt stackedData ni =
     (case mapM_err (makeDatapoint vbt stackedData (fst ni) (snd ni)) (enumerate_from0 tss) of
        Inl e \<Rightarrow> Inl e
      | Inr dps \<Rightarrow>
          Inr \<lparr>s_name = fst ni,
               s_key = fst ni @ '':'' @ digits10 (snd ni),
               s_color = colorThemes th (snd ni),
               s_datapoints = dps\<rparr>)"

definition processMultiSeries :: "'m props \<Rightarrow> js_error + aligned_series list" where
  "processMultiSeries p =
     (let multiSeriesNames = js_sort_strings (map (getSeriesName p) (multiSeries p))
      in case getTimestampQuantizer p of
           Inl e \<Rightarrow> Inl e
         | Inr timestampQuantizer \<Rightarrow>
             (let tss = q_range timestampQuantizer
              in case foldM_err (storeSeries timestampQuantizer multiSeriesNames)
                        (enumerate_from0 (multiSeries p)) (initialValues tss multiSeriesNames) of
                   Inl e \<Rightarrow> Inl e
                 | Inr valuesByTimestamp \<Rightarrow>
                     (let stackedData = d3_stack multiSeriesNames (valuesForStacking tss valuesByTimestamp)
                      in mapM_err (makeSeries (colorTheme p) tss valuesByTimestamp stackedData)
                           (enumerate_from0 multiSeriesNames))))"

section \<open>Hover resolution: handleGraphMouseMove\<close>

record hover_point =
  hp_graphValue :: "jsnum option"
  hp_value :: "jsnum option"
  hp_key :: string
  hp_name :: string
  hp_color :: string

record focused_point = hover_point +
  hp_focused :: bool

record state =
  selectedLegendSeriesKey :: "string option"
  hoveredLegendSeriesKey :: "string option"
  hoverTimestampSec :: "int option"
  hoverPoints :: "focused_point list option"
  state_multiSeries :: "aligned_series list"

text \<open>A key held in the state is truthy unless it is \<open>null\<close> or the empty string.\<close>

definition truthy :: "string option \<Rightarrow> bool" where
  "truthy k = (k \<noteq> None \<and> k \<noteq> Some [])"

definition getVisibleMultiSeries :: "state \<Rightarrow> aligned_series list" where
  "getVisibleMultiSeries st =
     (if \<not> truthy (selectedLegendSeriesKey st) then state_multiSeries st
      else filter (\<lambda>series. selectedLegendSeriesKey st = Some (s_key series)) (state_multiSeries st))"

text \<open>
  The lookup by \<open>sortedIndex\<close>; \<open>None\<close> is the \<open>undefined\<close> read past the
  end of the datapoints. For an \<open>undefined\<close> timestamp \<open>sortedIndex\<close> returns
  the length of the array.
\<close>

definition getDatapointAtTimestamp :: "aligned_series \<Rightarrow> int option \<Rightarrow> datapoint option" where
  "getDatapointAtTimestamp series timestampSec =
     (let timestamps = map dp_timestampSec (s_datapoints series);
          index = (case timestampSec of None \<Rightarrow> length timestamps | Some t \<Rightarrow> sortedIndex timestamps t)
      in nth_opt (s_datapoints series) index)"

definition getDatapointOffset :: "state \<Rightarrow> datapoint \<Rightarrow> jsnum" where
  "getDatapointOffset st d = (if truthy (selectedLegendSeriesKey st) then Fin 0 else dp_offset d)"

text \<open>In stacked mode the value is added to the offset as a number: \<open>null\<close> adds \<open>0\<close>.\<close>

definition getDatapointGraphValue :: "bool \<Rightarrow> state \<Rightarrow> datapoint \<Rightarrow> jsnum option" where
  "getDatapointGraphValue stacked st d =
     (if \<not> stacked then dp_value d
      else Some (js_add (getDatapointOffset st d) (toNumber (dp_value d))))"

text \<open>Reading a field of an \<open>undefined\<close> datapoint throws a \<open>TypeError\<close>.\<close>

definition makeHoverPoint :: "bool \<Rightarrow> state \<Rightarrow> int option \<Rightarrow> aligned_series \<Rightarrow> js_error + hover_point" where
  "makeHoverPoint stacked st hoverTs series =
     (case getDatapointAtTimestamp series hoverTs of
        None \<Rightarrow> Inl TypeError
      | Some d \<Rightarrow>
          Inr \<lparr>hp_graphValue = getDatapointGraphValue stacked st d,
               hp_value = dp_value d,
               hp_key = s_key series,
               hp_name = s_name series,
               hp_color = s_color series\<rparr>)"

text \<open>
  \<open>minBy(array, iteratee)\<close> of lodash: \<open>baseExtremum\<close> with the comparator
  \<open>value < other\<close>. An element whose criterion is \<open>null\<close> is skipped, the
  first criterion must not be \<open>NaN\<close>, and a later element replaces the
  current one only when its criterion is strictly smaller.
\<close>

fun baseExtremum :: "('a \<Rightarrow> jsnum option) \<Rightarrow> 'a list \<Rightarrow> (jsnum \<times> 'a) option \<Rightarrow> (jsnum \<times> 'a) option" where
  "baseExtremum iteratee [] acc = acc"
| "baseExtremum iteratee (v # vs) acc =
     (case iteratee v of
        None \<Rightarrow> baseExtremum iteratee vs acc
      | Some current \<Rightarrow>
          (case acc of
             None \<Rightarrow> baseExtremum iteratee vs (if current \<noteq> NaN then Some (current, v) else None)
           | Some (computed, r) \<Rightarrow>
               baseExtremum iteratee vs (if js_lt current computed then Some (current, v) else acc)))"

definition minBy :: "('a \<Rightarrow> jsnum option) \<Rightarrow> 'a list \<Rightarrow> 'a option" where
  "minBy iteratee array = map_option snd (baseExtremum iteratee array None)"

text \<open>
  The focused series, \<open>None\<close> for the empty object \<open>{}\<close>. The comparison
  \<open>>=\<close> and the subtraction read a \<open>null\<close> graph value as \<open>0\<close>.
\<close>

definition focusedSeries :: "bool \<Rightarrow> jsnum \<Rightarrow> hover_point list \<Rightarrow> hover_point option" where
  "focusedSeries stacked cursorValue hps =
     (if stacked then
        (let isSeriesAbove = (\<lambda>s. js_ge (toNumber (hp_graphValue s)) cursorValue);
             hoverPointsAboveCursor = filter isSeriesAbove hps
         in minBy hp_graphValue hoverPointsAboveCursor)
      else
        (let distanceFromCursor = (\<lambda>s. Some (js_abs (js_sub (toNumber (hp_graphValue s)) cursorValue)))
         in minBy distanceFromCursor hps))"

definition withFocus :: "hover_point option \<Rightarrow> hover_point \<Rightarrow> focused_point" where
  "withFocus fs s =
     \<lparr>hp_graphValue = hp_graphValue s, hp_value = hp_value s, hp_key = hp_key s,
      hp_name = hp_name s, hp_color = hp_color s,
      hp_focused = (case fs of None \<Rightarrow> False | Some f \<Rightarrow> hp_key f = hp_key s)\<rparr>"

definition resolveFocus :: "bool \<Rightarrow> bool \<Rightarrow> jsnum \<Rightarrow> hover_point list \<Rightarrow> focused_point list" where
  "resolveFocus stacked simple cursorValue hps =
     (let marked = map (withFocus (focusedSeries stacked cursorValue hps)) hps
      in if simple then filter hp_focused marked else marked)"

text \<open>
  The pointer-move handler. The two scale inversions of the pixel position
  give \<open>cursorValue\<close> and \<open>cursorTimestampSec\<close>, which are the inputs here.
\<close>

definition handleGraphMouseMove :: "'m props \<Rightarrow> state \<Rightarrow> jsnum \<Rightarrow> rat \<Rightarrow> js_error + state" where
  "handleGraphMouseMove p st cursorValue cursorTimestampSec =
     (case getTimestampQuantizer p of
        Inl e \<Rightarrow> Inl e
      | Inr timestampQuantizer \<Rightarrow>
          (let hoverTs = quantize timestampQuantizer cursorTimestampSec
           in case mapM_err (makeHoverPoint (showStacked p) st hoverTs) (getVisibleMultiSeries st) of
                Inl e \<Rightarrow> Inl e
              | Inr hps \<Rightarrow>
                  Inr (st\<lparr>hoverTimestampSec := hoverTs,
                          hoverPoints := Some (resolveFocus (showStacked p) (simpleTooltip p) cursorValue hps)\<rparr>)))"

definition handleGraphMouseLeave :: "state \<Rightarrow> state" where
  "handleGraphMouseLeave st = st\<lparr>hoverTimestampSec := None, hoverPoints := None\<rparr>"

definition initialState :: state where
  "initialState =
     \<lparr>selectedLegendSeriesKey = None, hoveredLegendSeriesKey = None, hoverTimestampSec = None,
      hoverPoints = None, state_multiSeries = []\<rparr>"

text \<open>Mounting the component: the state after \<open>processMultiSeries\<close>.\<close>

definition componentWillMount :: "'m props \<Rightarrow> js_error + state" where
  "componentWillMount p =
     (case processMultiSeries p of
        Inl e \<Rightarrow> Inl e
      | Inr ms \<Rightarrow> Inr (initialState\<lparr>state_multiSeries := ms\<rparr>))"

definition hoverAfterMount :: "'m props \<Rightarrow> jsnum \<Rightarrow> rat \<Rightarrow> js_error + state" where
  "hoverAfterMount p cursorValue cursorTimestampSec =
     (case componentWillMount p of
        Inl e \<Rightarrow> Inl e
      | Inr st \<Rightarrow> handleGraphMouseMove p st cursorValue cursorTimestampSec)"

text \<open>The quantizer of a window applied to a timestamp.\<close>

definition quantizeAt :: "'a window_scheme \<Rightarrow> rat \<Rightarrow> js_error + int option" where
  "quantizeAt w x =
     (case getTimestampQuantizer w of Inl e \<Rightarrow> Inl e | Inr q \<Rightarrow> Inr (quantize q x))"

section \<open>Concrete inputs\<close>

text \<open>
  Two series given in the order \<open>b\<close>, \<open>a\<close>, each with one sample at the only
  grid point \<open>0\<close>.
\<close>

definition swappedSeries :: "string props" where
  "swappedSeries =
     \<lparr>startTimeSec = 0, endTimeSec = 0, stepDurationSec = 1,
      multiSeries = [\<lparr>metric = ''b'', series_values = [(0, Text ''1'')]\<rparr>,
                     \<lparr>metric = ''a'', series_values = [(0, Text ''2'')]\<rparr>],
      getSeriesName = metric, colorTheme = Mixed, showStacked = False, simpleTooltip = False\<rparr>"

text \<open>
  A window whose grid points \<open>8, 9, 10\<close> differ in their number of digits,
  with a series \<open>a\<close> holding one sample and an empty series \<open>b\<close>.
\<close>

definition mixedDigits :: "string props" where
  "mixedDigits =
     \<lparr>startTimeSec = 8, endTimeSec = 10, stepDurationSec = 1,
      multiSeries = [\<lparr>metric = ''a'', series_values = [(8, Text ''5'')]\<rparr>,
                     \<lparr>metric = ''b'', series_values = []\<rparr>],
      getSeriesName = metric, colorTheme = Mixed, showStacked = True, simpleTooltip = False\<rparr>"

text \<open>Two stacked series with the values \<open>3\<close> and \<open>4\<close> at the only grid point.\<close>

definition stackedPair :: "string props" where
  "stackedPair =
     \<lparr>startTimeSec = 0, endTimeSec = 0, stepDurationSec = 1,
      multiSeries = [\<lparr>metric = ''a'', series_values = [(0, Text ''3'')]\<rparr>,
                     \<lparr>metric = ''b'', series_values = [(0, Text ''4'')]\<rparr>],
      getSeriesName = metric, colorTheme = Mixed, showStacked = True, simpleTooltip = False\<rparr>"


text \<open>What a claim reads off an aligned series or a hover point.\<close>

definition seriesSummary :: "aligned_series \<Rightarrow> string \<times> (int \<times> jsnum option \<times> jsnum) list" where
  "seriesSummary s = (s_name s, map (\<lambda>d. (dp_timestampSec d, dp_value d, dp_offset d)) (s_datapoints s))"

definition hoverSummary :: "state \<Rightarrow> (string \<times> jsnum option \<times> bool) list option" where
  "hoverSummary st = map_option (map (\<lambda>h. (hp_name h, hp_value h, hp_focused h))) (hoverPoints st)"

text \<open>
  The state after mounting \<open>stackedPair\<close>, and after a pointer move over it
  at the cursor value \<open>5\<close> and the timestamp \<open>0\<close>.
\<close>

definition stackedPairMounted :: state where
  "stackedPairMounted =
     \<lparr>selectedLegendSeriesKey = None, hoveredLegendSeriesKey = None, hoverTimestampSec = None,
      hoverPoints = None,
      state_multiSeries =
        [\<lparr>s_name = ''a'', s_key = ''a:0'', s_color = ''hsl(209, 44%, 83%)'',
          s_datapoints = [\<lparr>dp_timestampSec = 0, dp_value = Some (Fin 3), dp_offset = Fin 0\<rparr>]\<rparr>,
         \<lparr>s_name = ''b'', s_key = ''b:1'', s_color = ''hsl(98, 55%, 81%)'',
          s_datapoints = [\<lparr>dp_timestampSec = 0, dp_value = Some (Fin 4), dp_offset = Fin 3\<rparr>]\<rparr>]\<rparr>"

definition stackedPairHovered :: state where
  "stackedPairHovered =
     stackedPairMounted
       \<lparr>hoverTimestampSec := Some 0,
        hoverPoints := Some
          [\<lparr>hp_graphValue = Some (Fin 3), hp_value = Some (Fin 3), hp_key = ''a:0'', hp_name = ''a'',
            hp_color = ''hsl(209, 44%, 83%)'', hp_focused = False\<rparr>,
           \<lparr>hp_graphValue = Some (Fin 7), hp_value = Some (Fin 4), hp_key = ''b:1'', hp_name = ''b'',
            hp_color = ''hsl(98, 55%, 81%)'', hp_focused = True\<rparr>]\<rparr>"



section \<open>Value formatters\<close>

lemma js_find_None: "list_all (\<lambda>x. \<not> P x) xs \<Longrightarrow> js_find P xs = None"
  by (induction xs) auto

lemma js_div_pos_one: "js_div_pos x 1 = x"
  by (cases x) simp_all

lemma bytes_no_unit:
  "js_lt bytes (Fin 2) \<Longrightarrow>
     js_find (\<lambda>(label, unit). js_ge (js_div_pos bytes unit) (Fin 2)) byteUnits = None"
  by (cases bytes) (simp_all add: byteUnits_def)

text \<open>
  Claim C10. In the \<open>bytes\<close> scheme, a reference magnitude below \<open>2\<close>
  matches no unit, not even the unit of one byte; the rendering function
  then maps every value that is not a gap to the string \<open>0\<close>, whatever the
  value, and a gap to \<open>---\<close>.
\<close>

theorem bytes_below_two_renders_zero:
  "js_lt bytes (Fin 2) \<Longrightarrow>
     valueFormatters_bytes bytes None = ''---'' \<and>
     (\<forall>x. valueFormatters_bytes bytes (Some x) = ''0'')"
  by (simp add: valueFormatters_bytes_def bytes_no_unit)

text \<open>Claim C10 at the reference \<open>1\<close>, for the values \<open>1\<close> and \<open>1.9\<close>.\<close>

theorem bytes_below_two_renders_zero_witness:
  "js_lt (Fin 1) (Fin 2) \<and> valueFormatters_bytes (Fin 1) None = ''---'' \<and>
   valueFormatters_bytes (Fin 1) (Some (Fin 1)) = ''0'' \<and>
   valueFormatters_bytes (Fin 1) (Some (Fin (19 / 10))) = ''0''"
  using bytes_below_two_renders_zero [of "Fin 1"] by simp

text \<open>
  Claim C8, as the code has it. In the \<open>none\<close> scheme, when the reference
  magnitude matches no big-number threshold and no small-number threshold,
  the rendering function formats every value that is neither a gap nor zero
  with four decimal places and no prefix, followed by the space that
  separates the number from the empty unit label. In every case a gap
  renders as \<open>---\<close> and zero as \<open>0\<close>.
\<close>

theorem none_fallback_four_decimals:
  "(js_find (\<lambda>(label, unit). js_ge (js_div_pos number unit) (Fin 2)) bigNumbers = None \<and>
    js_find (\<lambda>(base, prec). js_ge (js_div_pos number base) (Fin 2)) smallNumbers = None \<longrightarrow>
      (\<forall>x. x \<noteq> Fin 0 \<longrightarrow> valueFormatters_none number (Some x) = js_toFixed x 4 @ '' '')) \<and>
   valueFormatters_none number None = ''---'' \<and>
   valueFormatters_none number (Some (Fin 0)) = ''0''"
proof -
  have gap: "valueFormatters_none number None = ''---''"
    by (simp add: valueFormatters_none_def Let_def split: option.splits prod.splits)
  have zero: "valueFormatters_none number (Some (Fin 0)) = ''0''"
    by (simp add: valueFormatters_none_def Let_def split: option.splits prod.splits)
  have fallback: "valueFormatters_none number (Some x) = js_toFixed x 4 @ '' ''"
    if b: "js_find (\<lambda>(label, unit). js_ge (js_div_pos number unit) (Fin 2)) bigNumbers = None"
      and s: "js_find (\<lambda>(base, prec). js_ge (js_div_pos number base) (Fin 2)) smallNumbers = None"
      and nz: "x \<noteq> Fin 0" for x
    using nz by (simp add: valueFormatters_none_def b s js_div_pos_one)
  from gap zero fallback show ?thesis by blast
qed

text \<open>
  Claim C8 as amended, at the reference \<open>0\<close> and the value \<open>0.5\<close>: no
  threshold matches and the value renders with four decimals.
\<close>

theorem none_fallback_four_decimals_witness:
  "js_find (\<lambda>(label, unit). js_ge (js_div_pos (Fin 0) unit) (Fin 2)) bigNumbers = None \<and>
   js_find (\<lambda>(base, prec). js_ge (js_div_pos (Fin 0) base) (Fin 2)) smallNumbers = None \<and>
   Fin (1 / 2) \<noteq> Fin 0 \<and>
   valueFormatters_none (Fin 0) (Some (Fin (1 / 2))) = ''0.5000 ''"
proof -
  have b: "js_find (\<lambda>(label, unit). js_ge (js_div_pos (Fin 0) unit) (Fin 2)) bigNumbers = None"
    by code_simp
  have s: "js_find (\<lambda>(base, prec). js_ge (js_div_pos (Fin 0) base) (Fin 2)) smallNumbers = None"
    by code_simp
  have r: "js_toFixed (Fin (1 / 2)) 4 @ '' '' = ''0.5000 ''"
    by code_simp
  from none_fallback_four_decimals [of "Fin 0"] b s
  have "valueFormatters_none (Fin 0) (Some (Fin (1 / 2))) = js_toFixed (Fin (1 / 2)) 4 @ '' ''"
    by simp
  with b s r show ?thesis by simp
qed

text \<open>
  Claim C8 as stated fails: at the reference \<open>0\<close> no threshold matches, yet
  the value \<open>0.5\<close> is not rendered at integer precision.
\<close>

theorem none_fallback_integer_counterexample:
  "js_find (\<lambda>(label, unit). js_ge (js_div_pos (Fin 0) unit) (Fin 2)) bigNumbers = None \<and>
   js_find (\<lambda>(base, prec). js_ge (js_div_pos (Fin 0) base) (Fin 2)) smallNumbers = None \<and>
   Fin (1 / 2) \<noteq> Fin 0 \<and>
   valueFormatters_none (Fin 0) (Some (Fin (1 / 2))) \<noteq> js_toFixed (Fin (1 / 2)) 0 @ '' ''"
  by code_simp

section \<open>Parsing of sample values\<close>

lemma parseGraphValue_prometheus_infinities:
  "parseGraphValue (Text ''+Inf'') = None \<and> parseGraphValue (Text ''-Inf'') = None \<and>
   parseGraphValue (Text ''NaN'') = None"
  by code_simp

text \<open>
  Claim C7 says that a raw value which is not a finite number, a textual
  infinity included, parses to a gap. The code tests for \<open>NaN\<close> only: the
  texts \<open>Infinity\<close> and \<open>-Infinity\<close>, and an infinite number, come back as
  infinite numbers.
\<close>

theorem parseGraphValue_textual_infinity:
  "parseGraphValue (Text ''Infinity'') = Some PInf \<and>
   parseGraphValue (Text ''-Infinity'') = Some NInf \<and>
   parseGraphValue (Number PInf) = Some PInf"
  by code_simp

section \<open>The time grid\<close>

text \<open>
  For a positive step and an end not before the start, the number of grid
  points is \<open>(end - start) div step + 1\<close>: the tolerance of a millionth
  of a second keeps the start itself when the step divides the span.
\<close>

lemma grid_length:
  fixes st e s :: int
  assumes s: "0 < s" and d: "st \<le> e"
  shows "\<lceil>((of_int st - 1 / 1000000) - (of_int e :: rat)) / of_int (- s)\<rceil> = (e - st) div s + 1"
proof -
  define q where "q = (e - st) div s"
  define x :: rat where "x = (of_int (e - st) + 1 / 1000000) / of_int s"
  have eq: "((of_int st - 1 / 1000000) - (of_int e :: rat)) / of_int (- s) = x"
    using s by (simp add: x_def field_simps)
  have sr: "(0::rat) < of_int s" using s by simp
  have lo: "q * s \<le> e - st"
    unfolding q_def using s by (simp add: Euclidean_Rings.pos_mod_sign minus_mod_eq_div_mult [symmetric])
  have hi: "e - st + 1 \<le> (q + 1) * s"
  proof -
    have "(e - st) mod s < s" using s by simp
    then have "e - st < q * s + s"
      unfolding q_def by (simp add: minus_mod_eq_div_mult [symmetric])
    then show ?thesis by (simp add: algebra_simps)
  qed
  have "(of_int (q * s) :: rat) \<le> of_int (e - st)"
    using lo by (simp only: of_int_le_iff)
  then have "(of_int q :: rat) * of_int s < of_int (e - st) + 1 / 1000000"
    by simp
  then have 1: "of_int (q + 1) - 1 < x"
    using sr by (simp add: x_def pos_less_divide_eq)
  have "(of_int (e - st + 1) :: rat) \<le> of_int ((q + 1) * s)"
    using hi by (simp only: of_int_le_iff)
  then have "of_int (e - st) + 1 / 1000000 \<le> (of_int (q + 1) :: rat) * of_int s"
    by simp
  then have 2: "x \<le> of_int (q + 1)"
    using sr by (simp add: x_def pos_divide_le_eq)
  from 1 2 have "\<lceil>x\<rceil> = q + 1" by (rule ceiling_unique)
  then show ?thesis unfolding eq q_def .
qed

lemma grid_range:
  assumes s: "0 < stepDurationSec w" and d: "startTimeSec w \<le> endTimeSec w"
  shows "lodash_range (endTimeSec w) (of_int (startTimeSec w) - 1 / 1000000) (- stepDurationSec w) =
         map (\<lambda>i. endTimeSec w - int i * stepDurationSec w)
           [0..<Suc (nat ((endTimeSec w - startTimeSec w) div stepDurationSec w))]"
proof -
  have nn: "0 \<le> (endTimeSec w - startTimeSec w) div stepDurationSec w"
    using s d by (simp add: pos_imp_zdiv_nonneg_iff)
  have nz: "(if - stepDurationSec w = 0 then 1 else - stepDurationSec w) = - stepDurationSec w"
    using s by simp
  have len: "nat (max \<lceil>((of_int (startTimeSec w) - 1 / 1000000) - (of_int (endTimeSec w) :: rat)) /
                  of_int (- stepDurationSec w)\<rceil> 0) =
        Suc (nat ((endTimeSec w - startTimeSec w) div stepDurationSec w))"
    unfolding grid_length [OF s d] using nn by (simp add: nat_add_distrib)
  have step: "\<And>i. endTimeSec w + int i * - stepDurationSec w = endTimeSec w - int i * stepDurationSec w"
    by simp
  show ?thesis
    unfolding lodash_range_def Let_def nz len step ..
qed

lemma valid_window_grid_nonempty:
  assumes s: "0 < stepDurationSec w" and d: "startTimeSec w \<le> endTimeSec w"
  shows "timestampSecs w \<noteq> []"
proof -
  have "length (timestampSecs w) =
        Suc (nat ((endTimeSec w - startTimeSec w) div stepDurationSec w))"
    by (simp add: timestampSecs_def js_sort_numbers_def grid_range [OF s d] del: upt_Suc)
  then show ?thesis by auto
qed

lemma valid_window_grid_distinct:
  assumes s: "0 < stepDurationSec w" and d: "startTimeSec w \<le> endTimeSec w"
  shows "distinct (timestampSecs w)"
proof -
  have inj: "inj_on (\<lambda>i. endTimeSec w - int i * stepDurationSec w) A" for A
    using s by (auto simp: inj_on_def)
  show ?thesis
    by (simp add: timestampSecs_def js_sort_numbers_def grid_range [OF s d] distinct_map inj
        del: upt_Suc)
qed

text \<open>
  The range runs down from the end. Whenever the default sort returns it in
  ascending numeric order, the grid is the range reversed.
\<close>

lemma sorted_grid_is_reversed_range:
  assumes s: "0 < stepDurationSec w" and d: "startTimeSec w \<le> endTimeSec w"
    and srt: "sorted (timestampSecs w)"
  shows "timestampSecs w =
         rev (map (\<lambda>i. endTimeSec w - int i * stepDurationSec w)
           [0..<Suc (nat ((endTimeSec w - startTimeSec w) div stepDurationSec w))])"
proof -
  define r where "r = map (\<lambda>i. endTimeSec w - int i * stepDurationSec w)
           [0..<Suc (nat ((endTimeSec w - startTimeSec w) div stepDurationSec w))]"
  have ts: "timestampSecs w = sort_key js_toString_int r"
    by (simp add: timestampSecs_def js_sort_numbers_def grid_range [OF s d] r_def)
  have inj: "inj_on (\<lambda>i. endTimeSec w - int i * stepDurationSec w) A" for A
    using s by (auto simp: inj_on_def)
  have dr: "distinct r"
    unfolding r_def by (simp add: distinct_map inj del: upt_Suc)
  have "sorted_wrt (\<lambda>a b. a > b) r"
    unfolding r_def using s by (simp add: sorted_wrt_map sorted_wrt_upt del: upt_Suc)
  then have sr: "sorted (rev r)"
    by (simp add: sorted_wrt_rev) (erule sorted_wrt_mono_rel [rotated], simp)
  have "set (timestampSecs w) = set (rev r)" and "distinct (timestampSecs w)"
    using dr by (simp_all add: ts)
  with srt sr dr have "timestampSecs w = rev r"
    by (intro sorted_distinct_set_unique) simp_all
  then show ?thesis by (simp only: r_def)
qed

lemma sorted_grid_ascending:
  assumes s: "0 < stepDurationSec w" and d: "startTimeSec w \<le> endTimeSec w"
    and srt: "sorted (timestampSecs w)"
  shows "timestampSecs w =
         map (\<lambda>i. hd (timestampSecs w) + int i * stepDurationSec w)
           [0..<Suc (nat ((endTimeSec w - startTimeSec w) div stepDurationSec w))]"
proof -
  define n where "n = nat ((endTimeSec w - startTimeSec w) div stepDurationSec w)"
  define r where "r = map (\<lambda>i. endTimeSec w - int i * stepDurationSec w) [0..<Suc n]"
  have ts: "timestampSecs w = rev r"
    unfolding r_def n_def by (rule sorted_grid_is_reversed_range [OF s d srt])
  have lr: "length r = Suc n" by (simp add: r_def)
  have h: "hd (timestampSecs w) = endTimeSec w - int n * stepDurationSec w"
    unfolding ts by (simp add: hd_rev r_def)
  have "rev r = map (\<lambda>i. hd (timestampSecs w) + int i * stepDurationSec w) [0..<Suc n]"
  proof (rule nth_equalityI)
    show "length (rev r) = length (map (\<lambda>i. hd (timestampSecs w) + int i * stepDurationSec w) [0..<Suc n])"
      by (simp add: lr)
    fix i assume "i < length (rev r)"
    then have i: "i < Suc n" by (simp add: lr)
    then have "rev r ! i = r ! (n - i)" by (simp add: rev_nth lr)
    also have "\<dots> = endTimeSec w - int (n - i) * stepDurationSec w"
      using i unfolding r_def by (simp del: upt_Suc)
    also have "\<dots> = hd (timestampSecs w) + int i * stepDurationSec w"
      using i by (simp add: h of_nat_diff algebra_simps)
    finally show "rev r ! i =
        map (\<lambda>i. hd (timestampSecs w) + int i * stepDurationSec w) [0..<Suc n] ! i"
      using i by (simp del: upt_Suc)
  qed
  then show ?thesis using ts by (simp only: n_def)
qed




subsection \<open>Decimal digits and the default sort\<close>

text \<open>
  The decimal string of a number gives the number back, so it determines
  the number. On numbers with the same count of digits the order of the
  strings is the order of the numbers, and the default sort then sorts
  numerically: a grid of non-negative points whose first and last point
  have the same number of digits comes out in ascending order.
\<close>

lemma digit_chars: "list_all (\<lambda>d. digit_val (digit_char d) = d \<and> is_digit (digit_char d)) [0..<10]"
  by code_simp

lemma digit_val_digit_char: "d < 10 \<Longrightarrow> digit_val (digit_char d) = d"
  using digit_chars by (simp add: list_all_iff)

lemma digit_char_is_digit: "is_digit (digit_char d)"
proof -
  have "is_digit (digit_char (d mod 10))"
    using digit_chars by (simp add: list_all_iff)
  then show ?thesis by (simp add: digit_char_def)
qed

lemma digits10_digits: "\<forall>c \<in> set (digits10 n). is_digit c"
proof (induction n rule: digits10.induct)
  case (1 n)
  show ?case
  proof (cases "n < 10")
    case True
    then show ?thesis by (simp add: digits10.simps [of n] digit_char_is_digit)
  next
    case False
    with 1 show ?thesis by (simp add: digits10.simps [of n] digit_char_is_digit)
  qed
qed

lemma digits_val_snoc: "digits_val (ds @ [c]) = 10 * digits_val ds + digit_val c"
  by (simp add: digits_val_def)

lemma digits_val_digits10: "digits_val (digits10 n) = n"
proof (induction n rule: digits10.induct)
  case (1 n)
  show ?case
  proof (cases "n < 10")
    case True
    then show ?thesis
      by (simp add: digits10.simps [of n] digits_val_def digit_val_digit_char)
  next
    case False
    with 1 have "digits_val (digits10 (n div 10)) = n div 10" by simp
    with False show ?thesis
      by (simp add: digits10.simps [of n] digits_val_snoc digit_val_digit_char)
  qed
qed

lemma digits10_inj: "digits10 m = digits10 n \<Longrightarrow> m = n"
proof -
  assume "digits10 m = digits10 n"
  then have "digits_val (digits10 m) = digits_val (digits10 n)" by simp
  then show ?thesis by (simp only: digits_val_digits10)
qed

lemma digit_char_codes: "list_all (\<lambda>d. (of_char (digit_char d) :: nat) = 48 + d) [0..<10]"
  by code_simp

lemma digit_char_less: "a < 10 \<Longrightarrow> b < 10 \<Longrightarrow> digit_char a < digit_char b \<longleftrightarrow> a < b"
proof -
  assume a: "a < 10" and b: "b < 10"
  have "(of_char (digit_char a) :: nat) = 48 + a" "(of_char (digit_char b) :: nat) = 48 + b"
    using digit_char_codes a b by (simp_all add: list_all_iff)
  then show ?thesis by (simp add: less_char_def)
qed

lemma snoc_less_snoc:
  fixes xs ys :: "'a::linorder list"
  assumes "length xs = length ys"
  shows "xs @ [a] < ys @ [b] \<longleftrightarrow> xs < ys \<or> (xs = ys \<and> a < b)"
  using assms by (induction xs ys rule: list_induct2) auto

lemma digits10_length_pos: "0 < length (digits10 n)"
  by (subst digits10.simps) simp

lemma digits10_length_one: "length (digits10 n) = Suc 0 \<longleftrightarrow> n < 10"
proof (cases "n < 10")
  case True
  then show ?thesis by (subst digits10.simps) simp
next
  case False
  then have "length (digits10 n) = Suc (length (digits10 (n div 10)))"
    using digits10.simps [of n] by simp
  with False digits10_length_pos [of "n div 10"] show ?thesis by simp
qed

lemma digits10_less:
  "length (digits10 a) = length (digits10 b) \<Longrightarrow> digits10 a < digits10 b \<longleftrightarrow> a < b"
proof (induction a arbitrary: b rule: digits10.induct)
  case (1 a)
  show ?case
  proof (cases "a < 10")
    case True
    then have la: "length (digits10 a) = Suc 0" by (simp add: digits10_length_one)
    with "1.prems" have "length (digits10 b) = Suc 0" by simp
    then have b: "b < 10" by (simp add: digits10_length_one)
    have "digits10 a = [digit_char a]" "digits10 b = [digit_char b]"
      using True b digits10.simps [of a] digits10.simps [of b] by simp_all
    then show ?thesis using True b by (simp add: digit_char_less)
  next
    case False
    then have "length (digits10 a) \<noteq> Suc 0" by (simp add: digits10_length_one)
    with "1.prems" have "length (digits10 b) \<noteq> Suc 0" by simp
    then have b: "\<not> b < 10" by (simp add: digits10_length_one)
    have da: "digits10 a = digits10 (a div 10) @ [digit_char (a mod 10)]"
      using False digits10.simps [of a] by simp
    have db: "digits10 b = digits10 (b div 10) @ [digit_char (b mod 10)]"
      using b digits10.simps [of b] by simp
    have len: "length (digits10 (a div 10)) = length (digits10 (b div 10))"
      using "1.prems" by (simp add: da db)
    have IH: "digits10 (a div 10) < digits10 (b div 10) \<longleftrightarrow> a div 10 < b div 10"
      using False len by (rule "1.IH")
    have eq: "digits10 (a div 10) = digits10 (b div 10) \<longleftrightarrow> a div 10 = b div 10"
      using digits10_inj by auto
    have "digits10 a < digits10 b \<longleftrightarrow>
          a div 10 < b div 10 \<or> (a div 10 = b div 10 \<and> a mod 10 < b mod 10)"
      by (simp add: da db snoc_less_snoc [OF len] IH eq digit_char_less)
    also have "\<dots> \<longleftrightarrow> a < b"
    proof -
      define qa ra qb rb where "qa = a div 10" and "ra = a mod 10" and "qb = b div 10" and "rb = b mod 10"
      have "a = 10 * qa + ra" "b = 10 * qb + rb" "ra < 10" "rb < 10"
        by (simp_all add: qa_def ra_def qb_def rb_def)
      then have "(qa < qb \<or> (qa = qb \<and> ra < rb)) \<longleftrightarrow> a < b" by arith
      then show ?thesis by (simp only: qa_def ra_def qb_def rb_def)
    qed
    finally show ?thesis .
  qed
qed

lemma digits10_length_mono: "a \<le> b \<Longrightarrow> length (digits10 a) \<le> length (digits10 b)"
proof (induction a arbitrary: b rule: digits10.induct)
  case (1 a)
  show ?case
  proof (cases "a < 10")
    case True
    then have "length (digits10 a) = Suc 0" by (simp add: digits10_length_one)
    moreover have "Suc 0 \<le> length (digits10 b)"
      using digits10_length_pos [of b] by (simp only: Suc_leI)
    ultimately show ?thesis by simp
  next
    case False
    with "1.prems" have b: "\<not> b < 10" by simp
    have "length (digits10 a) = Suc (length (digits10 (a div 10)))"
      using False digits10.simps [of a] by simp
    moreover have "length (digits10 b) = Suc (length (digits10 (b div 10)))"
      using b digits10.simps [of b] by simp
    moreover have "length (digits10 (a div 10)) \<le> length (digits10 (b div 10))"
      using False "1.prems" by (intro "1.IH") (simp_all add: div_le_mono)
    ultimately show ?thesis by simp
  qed
qed

lemma insort_key_mono:
  assumes "\<forall>y \<in> set ys. f x \<le> f y \<longleftrightarrow> x \<le> y"
  shows "insort_key f x ys = insort_key (\<lambda>x. x) x ys"
  using assms by (induction ys) simp_all

lemma sort_key_mono:
  assumes "\<forall>x \<in> set xs. \<forall>y \<in> set xs. f x \<le> f y \<longleftrightarrow> x \<le> y"
  shows "sort_key f xs = sort xs"
  using assms
proof (induction xs)
  case Nil
  then show ?case by simp
next
  case (Cons x xs)
  then have IH: "sort_key f xs = sort xs" by simp
  have "insort_key f x (sort xs) = insort_key (\<lambda>x. x) x (sort xs)"
    using Cons.prems by (intro insort_key_mono) simp
  then show ?case by (simp add: sort_key_simps IH)
qed

lemma same_digits_grid_sorted:
  assumes s: "0 < stepDurationSec w" and d: "startTimeSec w \<le> endTimeSec w"
    and nn: "0 \<le> startTimeSec w"
    and len: "length (digits10 (nat (startTimeSec w))) = length (digits10 (nat (endTimeSec w)))"
  shows "sorted (timestampSecs w)"
proof -
  define n where "n = nat ((endTimeSec w - startTimeSec w) div stepDurationSec w)"
  define r where "r = map (\<lambda>i. endTimeSec w - int i * stepDurationSec w) [0..<Suc n]"
  have ts: "timestampSecs w = sort_key js_toString_int r"
    by (simp add: timestampSecs_def js_sort_numbers_def grid_range [OF s d] r_def n_def)
  have bounds: "startTimeSec w \<le> g \<and> g \<le> endTimeSec w" if "g \<in> set r" for g
  proof -
    from that have "g \<in> (\<lambda>i. endTimeSec w - int i * stepDurationSec w) ` set [0..<Suc n]"
      by (simp only: r_def set_map)
    then obtain i where "i \<in> set [0..<Suc n]" and ig: "g = endTimeSec w - int i * stepDurationSec w"
      by (rule imageE)
    then have i: "i \<le> n" "g = endTimeSec w - int i * stepDurationSec w" by auto
    have q0: "0 \<le> (endTimeSec w - startTimeSec w) div stepDurationSec w"
      using s d by (simp add: pos_imp_zdiv_nonneg_iff)
    have "int i * stepDurationSec w \<le> int n * stepDurationSec w"
      using i(1) s by (simp add: mult_right_mono)
    also have "\<dots> = (endTimeSec w - startTimeSec w) div stepDurationSec w * stepDurationSec w"
      using q0 by (simp add: n_def)
    also have "\<dots> \<le> endTimeSec w - startTimeSec w"
      using s by (simp add: minus_mod_eq_div_mult [symmetric])
    finally have "int i * stepDurationSec w \<le> endTimeSec w - startTimeSec w" .
    moreover have "0 \<le> int i * stepDurationSec w" using s by simp
    ultimately show ?thesis using i(2) by simp
  qed
  have dl: "length (digits10 (nat g)) = length (digits10 (nat (endTimeSec w)))" if "g \<in> set r" for g
  proof -
    from bounds [OF that] nn have "nat (startTimeSec w) \<le> nat g" "nat g \<le> nat (endTimeSec w)"
      by auto
    from digits10_length_mono [OF this(1)] digits10_length_mono [OF this(2)] len
    show ?thesis by simp
  qed
  have key: "js_toString_int x \<le> js_toString_int y \<longleftrightarrow> x \<le> y"
    if "x \<in> set r" "y \<in> set r" for x y
  proof -
    have x0: "0 \<le> x" and y0: "0 \<le> y" using bounds that nn by force+
    have l: "length (digits10 (nat x)) = length (digits10 (nat y))"
      using dl that by simp
    have "js_toString_int x \<le> js_toString_int y \<longleftrightarrow> digits10 (nat x) \<le> digits10 (nat y)"
      using x0 y0 by (simp add: js_toString_int_def)
    also have "\<dots> \<longleftrightarrow> digits10 (nat x) < digits10 (nat y) \<or> digits10 (nat x) = digits10 (nat y)"
      by (simp add: le_less)
    also have "\<dots> \<longleftrightarrow> nat x < nat y \<or> nat x = nat y"
      using digits10_less [OF l] digits10_inj by auto
    also have "\<dots> \<longleftrightarrow> x \<le> y" using x0 y0 by auto
    finally show ?thesis .
  qed
  have "sort_key js_toString_int r = sort r"
    by (rule sort_key_mono) (use key in blast)
  then show ?thesis by (simp add: ts)
qed

section \<open>The quantizer\<close>

text \<open>
  Both binary searches stay within their bounds. On a sorted array
  \<open>bisectRight\<close> returns the number of elements at most \<open>x\<close>, and
  \<open>sortedIndex\<close> finds an element that is there.
\<close>

lemma bisectRight_bounds:
  "lo \<le> hi \<Longrightarrow> lo \<le> bisectRight a x lo hi \<and> bisectRight a x lo hi \<le> hi"
proof (induction a x lo hi rule: bisectRight.induct)
  case (1 a x lo hi)
  show ?case
  proof (cases "lo < hi")
    case False
    then have "bisectRight a x lo hi = lo" by (subst bisectRight.simps) simp
    with "1.prems" show ?thesis by simp
  next
    case True
    define mid where "mid = (lo + hi) div 2"
    have m: "lo \<le> mid" "mid < hi" using True by (simp_all add: mid_def)
    show ?thesis
    proof (cases "a ! mid > x")
      case gt: True
      from "1.IH"(1) [OF True mid_def gt] m
      have "lo \<le> bisectRight a x lo mid \<and> bisectRight a x lo mid \<le> mid" by simp
      with True gt m show ?thesis
        by (simp add: bisectRight.simps [of a x lo hi] mid_def [symmetric])
    next
      case le: False
      from "1.IH"(2) [OF True mid_def le] m
      have "mid + 1 \<le> bisectRight a x (mid + 1) hi \<and> bisectRight a x (mid + 1) hi \<le> hi" by simp
      with True le m show ?thesis
        by (simp add: bisectRight.simps [of a x lo hi] mid_def [symmetric])
    qed
  qed
qed

lemma bisectRight_sorted:
  assumes "sorted a" and "hi \<le> length a" and "lo \<le> hi"
    and "\<forall>j<lo. a ! j \<le> x" and "\<forall>j. hi \<le> j \<and> j < length a \<longrightarrow> x < a ! j"
  shows "(\<forall>j<bisectRight a x lo hi. a ! j \<le> x) \<and>
         (\<forall>j. bisectRight a x lo hi \<le> j \<and> j < length a \<longrightarrow> x < a ! j)"
  using assms
proof (induction a x lo hi rule: bisectRight.induct)
  case (1 a x lo hi)
  show ?case
  proof (cases "lo < hi")
    case False
    then have "bisectRight a x lo hi = lo" by (subst bisectRight.simps) simp
    moreover from False "1.prems" have "lo = hi" by simp
    ultimately show ?thesis using "1.prems" by simp
  next
    case True
    define mid where "mid = (lo + hi) div 2"
    have m: "lo \<le> mid" "mid < hi" using True by (simp_all add: mid_def)
    show ?thesis
    proof (cases "a ! mid > x")
      case gt: True
      have up: "\<forall>j. mid \<le> j \<and> j < length a \<longrightarrow> x < a ! j"
      proof (intro allI impI)
        fix j assume "mid \<le> j \<and> j < length a"
        then have "a ! mid \<le> a ! j" using "1.prems"(1) by (simp add: sorted_nth_mono)
        with gt show "x < a ! j" by simp
      qed
      have "(\<forall>j<bisectRight a x lo mid. a ! j \<le> x) \<and>
            (\<forall>j. bisectRight a x lo mid \<le> j \<and> j < length a \<longrightarrow> x < a ! j)"
        using "1.prems" m up by (intro "1.IH"(1) [OF True mid_def gt]) simp_all
      with True gt show ?thesis
        by (simp add: bisectRight.simps [of a x lo hi] mid_def [symmetric])
    next
      case le: False
      have down: "\<forall>j<mid + 1. a ! j \<le> x"
      proof (intro allI impI)
        fix j assume "j < mid + 1"
        then have "a ! j \<le> a ! mid" using "1.prems"(1,2) m by (simp add: sorted_nth_mono)
        with le show "a ! j \<le> x" by simp
      qed
      have "(\<forall>j<bisectRight a x (mid + 1) hi. a ! j \<le> x) \<and>
            (\<forall>j. bisectRight a x (mid + 1) hi \<le> j \<and> j < length a \<longrightarrow> x < a ! j)"
        using "1.prems" m down by (intro "1.IH"(2) [OF True mid_def le]) simp_all
      with True le show ?thesis
        by (simp add: bisectRight.simps [of a x lo hi] mid_def [symmetric])
    qed
  qed
qed

lemma baseSortedIndex_bounds:
  "low \<le> high \<Longrightarrow> low \<le> baseSortedIndex a v low high \<and> baseSortedIndex a v low high \<le> high"
proof (induction a v low high rule: baseSortedIndex.induct)
  case (1 a v low high)
  show ?case
  proof (cases "low < high")
    case False
    then have "baseSortedIndex a v low high = high" by (subst baseSortedIndex.simps) simp
    with "1.prems" show ?thesis by simp
  next
    case True
    define mid where "mid = (low + high) div 2"
    have m: "low \<le> mid" "mid < high" using True by (simp_all add: mid_def)
    show ?thesis
    proof (cases "a ! mid < v")
      case lt: True
      from "1.IH"(1) [OF True mid_def lt] m
      have "mid + 1 \<le> baseSortedIndex a v (mid + 1) high \<and> baseSortedIndex a v (mid + 1) high \<le> high"
        by simp
      with True lt m show ?thesis
        by (simp add: baseSortedIndex.simps [of a v low high] mid_def [symmetric])
    next
      case ge: False
      from "1.IH"(2) [OF True mid_def ge] m
      have "low \<le> baseSortedIndex a v low mid \<and> baseSortedIndex a v low mid \<le> mid" by simp
      with True ge m show ?thesis
        by (simp add: baseSortedIndex.simps [of a v low high] mid_def [symmetric])
    qed
  qed
qed

lemma baseSortedIndex_sorted:
  assumes "sorted a" and "high \<le> length a" and "low \<le> high"
    and "\<forall>j<low. a ! j < v" and "\<forall>j. high \<le> j \<and> j < length a \<longrightarrow> v \<le> a ! j"
  shows "(\<forall>j<baseSortedIndex a v low high. a ! j < v) \<and>
         (\<forall>j. baseSortedIndex a v low high \<le> j \<and> j < length a \<longrightarrow> v \<le> a ! j)"
  using assms
proof (induction a v low high rule: baseSortedIndex.induct)
  case (1 a v low high)
  show ?case
  proof (cases "low < high")
    case False
    then have "baseSortedIndex a v low high = high" by (subst baseSortedIndex.simps) simp
    moreover from False "1.prems" have "low = high" by simp
    ultimately show ?thesis using "1.prems" by simp
  next
    case True
    define mid where "mid = (low + high) div 2"
    have m: "low \<le> mid" "mid < high" using True by (simp_all add: mid_def)
    show ?thesis
    proof (cases "a ! mid < v")
      case lt: True
      have down: "\<forall>j<mid + 1. a ! j < v"
      proof (intro allI impI)
        fix j assume "j < mid + 1"
        then have "a ! j \<le> a ! mid" using "1.prems"(1,2) m by (simp add: sorted_nth_mono)
        with lt show "a ! j < v" by simp
      qed
      have "(\<forall>j<baseSortedIndex a v (mid + 1) high. a ! j < v) \<and>
            (\<forall>j. baseSortedIndex a v (mid + 1) high \<le> j \<and> j < length a \<longrightarrow> v \<le> a ! j)"
        using "1.prems" m down by (intro "1.IH"(1) [OF True mid_def lt]) simp_all
      with True lt show ?thesis
        by (simp add: baseSortedIndex.simps [of a v low high] mid_def [symmetric])
    next
      case ge: False
      have up: "\<forall>j. mid \<le> j \<and> j < length a \<longrightarrow> v \<le> a ! j"
      proof (intro allI impI)
        fix j assume "mid \<le> j \<and> j < length a"
        then have "a ! mid \<le> a ! j" using "1.prems"(1) by (simp add: sorted_nth_mono)
        with ge show "v \<le> a ! j" by simp
      qed
      have "(\<forall>j<baseSortedIndex a v low mid. a ! j < v) \<and>
            (\<forall>j. baseSortedIndex a v low mid \<le> j \<and> j < length a \<longrightarrow> v \<le> a ! j)"
        using "1.prems" m up by (intro "1.IH"(2) [OF True mid_def ge]) simp_all
      with True ge show ?thesis
        by (simp add: baseSortedIndex.simps [of a v low high] mid_def [symmetric])
    qed
  qed
qed

lemma sortedIndex_finds:
  assumes "sorted a" and "v \<in> set a"
  shows "sortedIndex a v < length a \<and> a ! sortedIndex a v = v"
proof -
  let ?r = "sortedIndex a v"
  have c: "(\<forall>j<?r. a ! j < v) \<and> (\<forall>j. ?r \<le> j \<and> j < length a \<longrightarrow> v \<le> a ! j)"
    unfolding sortedIndex_def using assms(1) by (intro baseSortedIndex_sorted) simp_all
  from assms(2) obtain k where k: "k < length a" "a ! k = v" by (auto simp: in_set_conv_nth)
  have "\<not> k < ?r" using c k by auto
  then have rk: "?r \<le> k" by simp
  then have lt: "?r < length a" using k by simp
  have "v \<le> a ! ?r" using c lt by simp
  moreover have "a ! ?r \<le> a ! k" using assms(1) rk k(1) by (simp add: sorted_nth_mono)
  ultimately show ?thesis using lt k(2) by simp
qed

lemma getTimestampQuantizer_Inr:
  assumes "timestampSecs w \<noteq> []"
  shows "\<exists>q. getTimestampQuantizer w = Inr q \<and> q_range q = timestampSecs w \<and>
           q_domain q =
             map (\<lambda>i. ((of_nat i + 1) * (of_int (last (timestampSecs w)) + (1 / 2) * of_int (stepDurationSec w)) -
                        (of_nat i - of_nat (length (timestampSecs w) - 1)) *
                          (of_int (hd (timestampSecs w)) - (1 / 2) * of_int (stepDurationSec w))) /
                       (of_nat (length (timestampSecs w) - 1) + 1))
               [0..<length (timestampSecs w) - 1]"
  using assms by (simp add: getTimestampQuantizer_def scaleQuantize_def Let_def)

lemma getTimestampQuantizer_range:
  assumes "getTimestampQuantizer w = Inr q"
  shows "q_range q = timestampSecs w \<and> timestampSecs w \<noteq> []"
  using assms
  by (auto simp: getTimestampQuantizer_def scaleQuantize_def Let_def split: if_splits)

text \<open>
  The quantizer of a non-empty grid is total: every timestamp is mapped to
  some point of the grid.
\<close>

lemma quantize_total:
  assumes "getTimestampQuantizer w = Inr q"
  shows "\<exists>g \<in> set (timestampSecs w). quantize q x = Some g"
proof -
  from getTimestampQuantizer_range [OF assms]
  have r: "q_range q = timestampSecs w" and ne: "timestampSecs w \<noteq> []" by simp_all
  let ?i = "bisectRight (q_domain q) x 0 (length (timestampSecs w) - 1)"
  have "?i \<le> length (timestampSecs w) - 1"
    using bisectRight_bounds [of 0 "length (timestampSecs w) - 1" "q_domain q" x] by simp
  then have "?i < length (timestampSecs w)" using ne by (cases "timestampSecs w") auto
  then show ?thesis by (simp add: quantize_def nth_opt_def r)
qed

text \<open>
  On a grid in ascending order the thresholds lie halfway between the grid
  points, so the quantizer maps every timestamp within half a step of a
  grid point to that point, and every grid point to itself.
\<close>

lemma threshold_formula:
  fixes G S :: rat
  shows "((of_nat i + 1) * ((G + of_nat n * S) + (1 / 2) * S) - (of_nat i - of_nat n) * (G - (1 / 2) * S)) /
           (of_nat n + 1) = G + (of_nat i + 1 / 2) * S"
proof -
  have "(0 :: rat) \<le> of_nat n" by simp
  then have nz: "(of_nat n + 1 :: rat) \<noteq> 0" by linarith
  have "(of_nat i + 1) * ((G + of_nat n * S) + (1 / 2) * S) - (of_nat i - of_nat n) * (G - (1 / 2) * S) =
        (G + (of_nat i + 1 / 2) * S) * (of_nat n + 1)"
    by (simp add: field_simps)
  then show ?thesis using nz by (simp add: divide_eq_eq)
qed

lemma sorted_grid_quantize_near:
  assumes s: "0 < stepDurationSec w" and d: "startTimeSec w \<le> endTimeSec w"
    and srt: "sorted (timestampSecs w)"
    and k: "k < length (timestampSecs w)"
    and lo: "- (of_int (stepDurationSec w) / 2) \<le> \<delta>" and hi: "\<delta> < of_int (stepDurationSec w) / 2"
  shows "quantizeAt w (of_int (timestampSecs w ! k) + \<delta>) = Inr (Some (timestampSecs w ! k))"
proof -
  define n where "n = nat ((endTimeSec w - startTimeSec w) div stepDurationSec w)"
  define g0 where "g0 = hd (timestampSecs w)"
  define G :: rat where "G = of_int g0"
  define S :: rat where "S = of_int (stepDurationSec w)"
  have Spos: "0 < S" using s by (simp add: S_def)
  have ts: "timestampSecs w = map (\<lambda>i. g0 + int i * stepDurationSec w) [0..<Suc n]"
    unfolding g0_def n_def by (rule sorted_grid_ascending [OF s d srt])
  have len: "length (timestampSecs w) = Suc n"
    by (subst ts) (simp del: upt_Suc)
  have kn: "k \<le> n" using k len by simp
  have tk: "timestampSecs w ! j = g0 + int j * stepDurationSec w" if "j \<le> n" for j
    using that by (subst ts) (simp del: upt_Suc)
  have lst: "last (timestampSecs w) = g0 + int n * stepDurationSec w"
    by (subst ts) simp
  have ne: "timestampSecs w \<noteq> []" using len by auto
  from getTimestampQuantizer_Inr [OF ne] obtain q :: quantizer where
    q: "getTimestampQuantizer w = Inr q" and qr: "q_range q = timestampSecs w"
    and qd: "q_domain q =
             map (\<lambda>i. ((of_nat i + 1) * (of_int (last (timestampSecs w)) + (1 / 2) * of_int (stepDurationSec w)) -
                        (of_nat i - of_nat (length (timestampSecs w) - 1)) *
                          (of_int (hd (timestampSecs w)) - (1 / 2) * of_int (stepDurationSec w))) /
                       (of_nat (length (timestampSecs w) - 1) + 1))
               [0..<length (timestampSecs w) - 1]"
    by blast
  have thr: "((of_nat i + 1) * (of_int (g0 + int n * stepDurationSec w) + (1 / 2) * of_int (stepDurationSec w)) -
                (of_nat i - of_nat n) * (of_int g0 - (1 / 2) * of_int (stepDurationSec w))) /
              (of_nat n + 1) = G + (of_nat i + 1 / 2) * S" for i
    using threshold_formula [of i G n S] by (simp add: G_def S_def)
  have dom: "q_domain q = map (\<lambda>i. G + (of_nat i + 1 / 2) * S) [0..<n]"
    by (simp only: qd len lst g0_def [symmetric] thr diff_Suc_1)
  let ?x = "of_int (timestampSecs w ! k) + \<delta>"
  have x: "?x = G + of_nat k * S + \<delta>"
    by (simp add: tk [OF kn] G_def S_def)
  have sdom: "sorted (q_domain q)"
    unfolding dom using Spos
    by (simp add: sorted_map sorted_wrt_upt)
  let ?r = "bisectRight (q_domain q) ?x 0 n"
  have ld: "length (q_domain q) = n" by (simp add: dom)
  have c: "(\<forall>j<?r. q_domain q ! j \<le> ?x) \<and> (\<forall>j. ?r \<le> j \<and> j < length (q_domain q) \<longrightarrow> ?x < q_domain q ! j)"
    using sdom ld by (intro bisectRight_sorted) simp_all
  have rn: "?r \<le> n"
    using bisectRight_bounds [of 0 n "q_domain q" ?x] by simp
  have dj: "q_domain q ! j = G + (of_nat j + 1 / 2) * S" if "j < n" for j
    using that by (simp add: dom)
  have "\<not> k < ?r"
  proof
    assume kr: "k < ?r"
    then have "k < n" using rn by simp
    from c kr have "q_domain q ! k \<le> ?x" by simp
    then have "G + (of_nat k + 1 / 2) * S \<le> G + of_nat k * S + \<delta>"
      using dj [OF \<open>k < n\<close>] x by simp
    then have "S / 2 \<le> \<delta>" by (simp add: algebra_simps)
    with hi show False by (simp add: S_def)
  qed
  moreover have "\<not> ?r < k"
  proof
    assume rk: "?r < k"
    then have "?r < n" using kn by simp
    with c ld have "?x < q_domain q ! ?r" by simp
    then have "G + of_nat k * S + \<delta> < G + (of_nat ?r + 1 / 2) * S"
      using dj [OF \<open>?r < n\<close>] x by simp
    moreover have "(of_nat ?r + 1) * S \<le> of_nat k * S"
    proof (rule mult_right_mono)
      have "Suc ?r \<le> k" using rk by simp
      then have "(of_nat (Suc ?r) :: rat) \<le> of_nat k" by (simp only: of_nat_le_iff)
      then show "(of_nat ?r + 1 :: rat) \<le> of_nat k" by simp
      show "0 \<le> S" using Spos by simp
    qed
    ultimately have "\<delta> < - (S / 2)" by (simp add: algebra_simps)
    with lo show False by (simp add: S_def)
  qed
  ultimately have rk: "?r = k" by simp
  have "quantize q ?x = Some (timestampSecs w ! k)"
    using k by (simp add: quantize_def qr len rk nth_opt_def)
  then show ?thesis by (simp add: quantizeAt_def q)
qed

lemma sorted_grid_quantize_fixpoint:
  assumes s: "0 < stepDurationSec w" and d: "startTimeSec w \<le> endTimeSec w"
    and srt: "sorted (timestampSecs w)" and g: "g \<in> set (timestampSecs w)"
  shows "quantizeAt w (of_int g) = Inr (Some g)"
proof -
  from g obtain k where k: "k < length (timestampSecs w)" "timestampSecs w ! k = g"
    by (auto simp: in_set_conv_nth)
  have "quantizeAt w (of_int (timestampSecs w ! k) + 0) = Inr (Some (timestampSecs w ! k))"
    using s by (intro sorted_grid_quantize_near [OF s d srt k(1)]) simp_all
  then show ?thesis using k(2) by simp
qed

text \<open>
  Claim C6 says that the quantizer maps every grid point to itself. On the
  grid \<open>8, 9, 10\<close>, ordered as \<open>10, 8, 9\<close>, the grid point \<open>10\<close> is mapped
  to \<open>9\<close>.
\<close>

theorem mixed_digits_grid_point_moves:
  "timestampSecs mixedDigits = [10, 8, 9] \<and> quantizeAt mixedDigits 10 = Inr (Some 9)"
  by code_simp

section \<open>Alignment and stacking\<close>

lemma mapM_err_Inr:
  "mapM_err f xs = Inr ys \<Longrightarrow> length ys = length xs \<and> (\<forall>i<length xs. f (xs ! i) = Inr (ys ! i))"
proof (induction xs arbitrary: ys)
  case Nil
  then show ?case by simp
next
  case (Cons x xs)
  from Cons.prems obtain y ys' where y: "f x = Inr y" "mapM_err f xs = Inr ys'" "ys = y # ys'"
    by (auto split: sum.splits)
  from Cons.IH [OF y(2)] y(1,3) show ?case
    by (auto simp: nth_Cons split: nat.splits)
qed

lemma mapM_err_total:
  assumes "\<forall>x \<in> set xs. \<exists>y. f x = Inr y"
  shows "\<exists>ys. mapM_err f xs = Inr ys"
  using assms
proof (induction xs)
  case Nil
  then show ?case by simp
next
  case (Cons x xs)
  then obtain y ys where "f x = Inr y" "mapM_err f xs = Inr ys" by auto
  then show ?case by simp
qed

lemma enumerate_from0_nth:
  "i < length xs \<Longrightarrow> enumerate_from0 xs ! i = (xs ! i, i)"
  by (simp add: enumerate_from0_def)

lemma enumerate_from0_length: "length (enumerate_from0 xs) = length xs"
  by (simp add: enumerate_from0_def)

lemma enumerate_from0_set:
  "xi \<in> set (enumerate_from0 xs) \<Longrightarrow> snd xi < length xs \<and> fst xi = xs ! snd xi"
  by (auto simp: enumerate_from0_def set_zip)

lemma enumerate_from0_find:
  "i < length xs \<Longrightarrow> List.find (\<lambda>si. snd si = i) (enumerate_from0 xs) = Some (xs ! i, i)"
proof -
  assume i: "i < length xs"
  have d: "distinct (map snd (enumerate_from0 xs))"
    by (simp add: enumerate_from0_def)
  have "\<exists>k<length (enumerate_from0 xs). snd (enumerate_from0 xs ! k) = i \<and>
          (xs ! i, i) = enumerate_from0 xs ! k \<and> (\<forall>l<k. \<not> snd (enumerate_from0 xs ! l) = i)"
    using i by (intro exI [of _ i]) (simp add: enumerate_from0_length enumerate_from0_nth)
  then show ?thesis by (simp only: find_Some_iff)
qed

lemma makeDatapoint_Inr:
  assumes "makeDatapoint vbt sd name idx ti = Inr d"
  shows "dp_timestampSec d = fst ti \<and>
         (\<exists>r s y. vbt (fst ti) = Some r \<and> nth_opt sd idx = Some s \<and> nth_opt s (snd ti) = Some y \<and>
            dp_value d = (case r name of Some v \<Rightarrow> v | None \<Rightarrow> None) \<and> dp_offset d = fst y)"
proof -
  from assms obtain r where r: "vbt (fst ti) = Some r"
    by (cases "vbt (fst ti)") (simp_all add: makeDatapoint_def)
  from assms r obtain s where s: "nth_opt sd idx = Some s"
    by (cases "nth_opt sd idx") (simp_all add: makeDatapoint_def)
  from assms r s obtain y where y: "nth_opt s (snd ti) = Some y"
    by (cases "nth_opt s (snd ti)") (simp_all add: makeDatapoint_def)
  from assms r s y have dd: "d = \<lparr>dp_timestampSec = fst ti,
      dp_value = (case r name of Some v \<Rightarrow> v | None \<Rightarrow> None), dp_offset = fst y\<rparr>"
    by (simp add: makeDatapoint_def)
  have "vbt (fst ti) = Some r \<and> nth_opt sd idx = Some s \<and> nth_opt s (snd ti) = Some y \<and>
            dp_value d = (case r name of Some v \<Rightarrow> v | None \<Rightarrow> None) \<and> dp_offset d = fst y"
    using r s y dd by simp
  then have "\<exists>r s y. vbt (fst ti) = Some r \<and> nth_opt sd idx = Some s \<and> nth_opt s (snd ti) = Some y \<and>
            dp_value d = (case r name of Some v \<Rightarrow> v | None \<Rightarrow> None) \<and> dp_offset d = fst y"
    by (intro exI)
  moreover have "dp_timestampSec d = fst ti" using dd by simp
  ultimately show ?thesis by (intro conjI)
qed

lemma makeSeries_Inr:
  assumes "makeSeries th tss vbt sd ni = Inr s"
  shows "s_key s = fst ni @ '':'' @ digits10 (snd ni) \<and> s_name s = fst ni \<and>
         mapM_err (makeDatapoint vbt sd (fst ni) (snd ni)) (enumerate_from0 tss) = Inr (s_datapoints s)"
  using assms by (auto simp: makeSeries_def split: sum.splits)

lemma makeSeries_timestamps:
  assumes "makeSeries th tss vbt sd ni = Inr s"
  shows "map dp_timestampSec (s_datapoints s) = tss"
proof -
  from makeSeries_Inr [OF assms]
  have m: "mapM_err (makeDatapoint vbt sd (fst ni) (snd ni)) (enumerate_from0 tss) = Inr (s_datapoints s)"
    by simp
  note mm = mapM_err_Inr [OF m]
  show ?thesis
  proof (rule nth_equalityI)
    show "length (map dp_timestampSec (s_datapoints s)) = length tss"
      using mm by (simp add: enumerate_from0_length)
    fix i assume "i < length (map dp_timestampSec (s_datapoints s))"
    then have i: "i < length tss" using mm by (simp add: enumerate_from0_length)
    then have "makeDatapoint vbt sd (fst ni) (snd ni) (tss ! i, i) = Inr (s_datapoints s ! i)"
      using mm by (simp add: enumerate_from0_length enumerate_from0_nth [symmetric])
    from makeDatapoint_Inr [OF this] show "map dp_timestampSec (s_datapoints s) ! i = tss ! i"
      using i mm by (simp add: enumerate_from0_length)
  qed
qed

lemma processMultiSeries_Inr:
  assumes "processMultiSeries p = Inr ms"
  shows "\<exists>q vbt. getTimestampQuantizer p = Inr q \<and>
           foldM_err (storeSeries q (js_sort_strings (map (getSeriesName p) (multiSeries p))))
             (enumerate_from0 (multiSeries p))
             (initialValues (q_range q) (js_sort_strings (map (getSeriesName p) (multiSeries p)))) = Inr vbt \<and>
           mapM_err (makeSeries (colorTheme p) (q_range q) vbt
               (d3_stack (js_sort_strings (map (getSeriesName p) (multiSeries p)))
                  (valuesForStacking (q_range q) vbt)))
             (enumerate_from0 (js_sort_strings (map (getSeriesName p) (multiSeries p)))) = Inr ms"
  using assms by (simp add: processMultiSeries_def Let_def split: sum.splits)

lemma processMultiSeries_timestamps:
  assumes "processMultiSeries p = Inr ms" and "s \<in> set ms"
  shows "map dp_timestampSec (s_datapoints s) = timestampSecs p"
proof -
  let ?names = "js_sort_strings (map (getSeriesName p) (multiSeries p))"
  from processMultiSeries_Inr [OF assms(1)] obtain q :: quantizer and vbt where
    q: "getTimestampQuantizer p = Inr q"
    and m: "mapM_err (makeSeries (colorTheme p) (q_range q) vbt
          (d3_stack ?names (valuesForStacking (q_range q) vbt))) (enumerate_from0 ?names) = Inr ms"
    by auto
  note mm = mapM_err_Inr [OF m]
  from assms(2) obtain i where i: "i < length ms" "ms ! i = s" by (auto simp: in_set_conv_nth)
  then have "makeSeries (colorTheme p) (q_range q) vbt
          (d3_stack ?names (valuesForStacking (q_range q) vbt)) (enumerate_from0 ?names ! i) = Inr s"
    using mm by simp
  from makeSeries_timestamps [OF this] getTimestampQuantizer_range [OF q]
  show ?thesis by simp
qed

lemma series_datapoint:
  assumes m: "mapM_err (makeSeries th tss vbt sd) (enumerate_from0 names) = Inr ms"
    and k: "k < length ms" and j: "j < length tss" and r: "vbt (tss ! j) = Some r"
  shows "s_name (ms ! k) = names ! k \<and>
         dp_timestampSec (s_datapoints (ms ! k) ! j) = tss ! j \<and>
         dp_value (s_datapoints (ms ! k) ! j) = (case r (names ! k) of Some v \<Rightarrow> v | None \<Rightarrow> None) \<and>
         dp_offset (s_datapoints (ms ! k) ! j) = fst (sd ! k ! j)"
proof -
  note mm = mapM_err_Inr [OF m]
  have len: "length ms = length names" using mm by (simp add: enumerate_from0_length)
  have "makeSeries th tss vbt sd (enumerate_from0 names ! k) = Inr (ms ! k)"
    using mm k len by (simp add: enumerate_from0_length)
  then have ms: "makeSeries th tss vbt sd (names ! k, k) = Inr (ms ! k)"
    using k len by (simp add: enumerate_from0_nth)
  from makeSeries_Inr [OF ms]
  have nm: "s_name (ms ! k) = names ! k"
    and md: "mapM_err (makeDatapoint vbt sd (names ! k) k) (enumerate_from0 tss) = Inr (s_datapoints (ms ! k))"
    by simp_all
  from mapM_err_Inr [OF md] j
  have "makeDatapoint vbt sd (names ! k) k (tss ! j, j) = Inr (s_datapoints (ms ! k) ! j)"
    by (simp add: enumerate_from0_length enumerate_from0_nth [symmetric])
  from makeDatapoint_Inr [OF this] r nm show ?thesis
    by (auto simp: nth_opt_def split: if_splits)
qed

subsection \<open>Keys\<close>

text \<open>
  The key of a series is its name, a colon and its position in decimal.
  The digits after the last colon give the position back, so the keys of
  the aligned series are distinct.
\<close>

lemma is_digit_not_colon: "is_digit c \<Longrightarrow> c \<noteq> CHR '':''"
  by (auto simp: is_digit_def)

lemma key_index_unique:
  assumes "a @ '':'' @ digits10 i = b @ '':'' @ digits10 j"
  shows "i = j"
proof -
  have nc: "\<forall>c \<in> set (rev (digits10 k)). c \<noteq> CHR '':''" for k
    using digits10_digits [of k] is_digit_not_colon by simp
  have "rev (a @ '':'' @ digits10 i) = rev (b @ '':'' @ digits10 j)"
    using assms by simp
  then have "rev (digits10 i) @ CHR '':'' # rev a = rev (digits10 j) @ CHR '':'' # rev b"
    by simp
  then have "takeWhile (\<lambda>c. c \<noteq> CHR '':'') (rev (digits10 i) @ CHR '':'' # rev a) =
             takeWhile (\<lambda>c. c \<noteq> CHR '':'') (rev (digits10 j) @ CHR '':'' # rev b)"
    by (rule arg_cong)
  moreover have "takeWhile (\<lambda>c. c \<noteq> CHR '':'') (rev (digits10 k) @ CHR '':'' # r) = rev (digits10 k)"
    for k r
    using nc [of k] by (simp add: takeWhile_tail takeWhile_eq_all_conv [THEN iffD2])
  ultimately have "rev (digits10 i) = rev (digits10 j)"
    by simp
  then show ?thesis using digits10_inj by simp
qed

lemma processMultiSeries_keys:
  assumes "processMultiSeries p = Inr ms"
  shows "length ms = length (multiSeries p) \<and>
         (\<forall>i<length ms. s_key (ms ! i) = s_name (ms ! i) @ '':'' @ digits10 i) \<and>
         map s_name ms = js_sort_strings (map (getSeriesName p) (multiSeries p))"
proof -
  let ?names = "js_sort_strings (map (getSeriesName p) (multiSeries p))"
  from processMultiSeries_Inr [OF assms] obtain q :: quantizer and vbt where
    m: "mapM_err (makeSeries (colorTheme p) (q_range q) vbt
          (d3_stack ?names (valuesForStacking (q_range q) vbt))) (enumerate_from0 ?names) = Inr ms"
    by auto
  note mm = mapM_err_Inr [OF m]
  have ln: "length ?names = length (multiSeries p)"
    by (simp add: js_sort_strings_def)
  have len: "length ms = length ?names"
    using mm by (simp add: enumerate_from0_length)
  have each: "s_key (ms ! i) = ?names ! i @ '':'' @ digits10 i \<and> s_name (ms ! i) = ?names ! i"
    if "i < length ms" for i
  proof -
    have i: "i < length (enumerate_from0 ?names)"
      using that len by (simp add: enumerate_from0_length)
    have "makeSeries (colorTheme p) (q_range q) vbt
          (d3_stack ?names (valuesForStacking (q_range q) vbt)) (enumerate_from0 ?names ! i) = Inr (ms ! i)"
      using mm i by simp
    from makeSeries_Inr [OF this] show ?thesis
      using that len by (simp add: enumerate_from0_nth)
  qed
  have "map s_name ms = ?names"
    using len each by (intro nth_equalityI) simp_all
  with len ln each show ?thesis by simp
qed

lemma processMultiSeries_keys_distinct:
  assumes "processMultiSeries p = Inr ms"
  shows "distinct (map s_key ms)"
proof -
  note k = processMultiSeries_keys [OF assms]
  show ?thesis
  proof (simp only: distinct_conv_nth length_map, intro allI impI)
    fix i j assume ij: "i < length ms" "j < length ms" "i \<noteq> j"
    show "map s_key ms ! i \<noteq> map s_key ms ! j"
    proof
      assume "map s_key ms ! i = map s_key ms ! j"
      then have "s_name (ms ! i) @ '':'' @ digits10 i = s_name (ms ! j) @ '':'' @ digits10 j"
        using ij k by simp
      from key_index_unique [OF this] ij(3) show False by simp
    qed
  qed
qed

lemma visible_keys_distinct:
  assumes "processMultiSeries q = Inr (state_multiSeries st)"
  shows "distinct (map s_key (getVisibleMultiSeries st))"
  using processMultiSeries_keys_distinct [OF assms]
  by (simp add: getVisibleMultiSeries_def distinct_map_filter)

subsection \<open>The rows of valuesByTimestamp\<close>

text \<open>
  While the samples are stored, the rows stay those of the grid points and
  every row keeps an entry for every name. So for a window with a positive
  step and an end not before the start nothing throws.
\<close>

lemma fold_upd_const:
  "fold (\<lambda>k m. m(k \<mapsto> v)) ks m0 k' = (if k' \<in> set ks then Some v else m0 k')"
  by (induction ks arbitrary: m0) auto

lemma initialValues_apply:
  "initialValues tss names t =
     (if t \<in> set tss then Some (fold (\<lambda>seriesName r. r(seriesName \<mapsto> None)) names Map.empty) else None)"
  unfolding initialValues_def by (simp add: fold_upd_const)

lemma initial_row_apply:
  "fold (\<lambda>seriesName r. r(seriesName \<mapsto> None)) names Map.empty n =
     (if n \<in> set names then Some None else None)"
  by (simp add: fold_upd_const)

lemma foldM_err_invariant:
  assumes "I s0" and "\<And>x s. x \<in> set xs \<Longrightarrow> I s \<Longrightarrow> \<exists>s'. f x s = Inr s' \<and> I s'"
  shows "\<exists>s'. foldM_err f xs s0 = Inr s' \<and> I s'"
  using assms
proof (induction xs arbitrary: s0)
  case Nil
  then show ?case by simp
next
  case (Cons x xs)
  from Cons.prems obtain s1 where s1: "f x s0 = Inr s1" "I s1" by (meson list.set_intros(1))
  have "\<exists>s'. foldM_err f xs s1 = Inr s' \<and> I s'"
    using s1(2) Cons.prems(2) by (intro Cons.IH) auto
  with s1(1) show ?case by simp
qed

lemma storePoint_rows:
  assumes q: "\<exists>g \<in> set tss. quantize q (fst pt) = Some g"
    and I: "\<forall>t. (t \<in> set tss \<longrightarrow> (\<exists>r. vbt t = Some r \<and> set names \<subseteq> dom r)) \<and> (t \<notin> set tss \<longrightarrow> vbt t = None)"
  shows "\<exists>vbt'. storePoint q names idx pt vbt = Inr vbt' \<and>
           (\<forall>t. (t \<in> set tss \<longrightarrow> (\<exists>r. vbt' t = Some r \<and> set names \<subseteq> dom r)) \<and>
                (t \<notin> set tss \<longrightarrow> vbt' t = None))"
proof -
  from q obtain g where g: "g \<in> set tss" "quantize q (fst pt) = Some g" by blast
  with I obtain r where r: "vbt g = Some r" "set names \<subseteq> dom r" by blast
  let ?vbt' = "vbt(g \<mapsto> r(names ! idx \<mapsto> parseGraphValue (snd pt)))"
  have "storePoint q names idx pt vbt = Inr ?vbt'"
    by (simp add: storePoint_def g(2) r(1))
  moreover have "(t \<in> set tss \<longrightarrow> (\<exists>r. ?vbt' t = Some r \<and> set names \<subseteq> dom r)) \<and>
                 (t \<notin> set tss \<longrightarrow> ?vbt' t = None)" for t
    using I g(1) r(2) by (cases "t = g") auto
  ultimately show ?thesis by blast
qed

lemma storeSeries_rows:
  assumes q: "\<forall>x. \<exists>g \<in> set tss. quantize q x = Some g"
    and I: "\<forall>t. (t \<in> set tss \<longrightarrow> (\<exists>r. vbt t = Some r \<and> set names \<subseteq> dom r)) \<and> (t \<notin> set tss \<longrightarrow> vbt t = None)"
  shows "\<exists>vbt'. storeSeries q names si vbt = Inr vbt' \<and>
           (\<forall>t. (t \<in> set tss \<longrightarrow> (\<exists>r. vbt' t = Some r \<and> set names \<subseteq> dom r)) \<and>
                (t \<notin> set tss \<longrightarrow> vbt' t = None))"
  unfolding storeSeries_def
  by (rule foldM_err_invariant [where I = "\<lambda>vbt. \<forall>t. (t \<in> set tss \<longrightarrow> (\<exists>r. vbt t = Some r \<and> set names \<subseteq> dom r)) \<and> (t \<notin> set tss \<longrightarrow> vbt t = None)"])
     (use I q storePoint_rows in blast)+

lemma alignment_rows:
  assumes q: "\<forall>x. \<exists>g \<in> set tss. quantize q x = Some g"
  shows "\<exists>vbt. foldM_err (storeSeries q names) sis (initialValues tss names) = Inr vbt \<and>
           (\<forall>t. (t \<in> set tss \<longrightarrow> (\<exists>r. vbt t = Some r \<and> set names \<subseteq> dom r)) \<and>
                (t \<notin> set tss \<longrightarrow> vbt t = None))"
proof (rule foldM_err_invariant [where I = "\<lambda>vbt. \<forall>t. (t \<in> set tss \<longrightarrow> (\<exists>r. vbt t = Some r \<and> set names \<subseteq> dom r)) \<and> (t \<notin> set tss \<longrightarrow> vbt t = None)"])
  show "\<forall>t. (t \<in> set tss \<longrightarrow> (\<exists>r. initialValues tss names t = Some r \<and> set names \<subseteq> dom r)) \<and>
            (t \<notin> set tss \<longrightarrow> initialValues tss names t = None)"
    by (auto simp: initialValues_apply initial_row_apply dom_def)
next
  fix si :: "'a input_series \<times> nat" and vbt :: values_by_timestamp
  assume "\<forall>t. (t \<in> set tss \<longrightarrow> (\<exists>r. vbt t = Some r \<and> set names \<subseteq> dom r)) \<and> (t \<notin> set tss \<longrightarrow> vbt t = None)"
  then show "\<exists>vbt'. storeSeries q names si vbt = Inr vbt' \<and>
           (\<forall>t. (t \<in> set tss \<longrightarrow> (\<exists>r. vbt' t = Some r \<and> set names \<subseteq> dom r)) \<and>
                (t \<notin> set tss \<longrightarrow> vbt' t = None))"
    by (rule storeSeries_rows [OF q])
qed

lemma map_filter_all_Some:
  assumes "\<forall>x \<in> set xs. \<exists>y. f x = Some y"
  shows "List.map_filter f xs = map (\<lambda>x. the (f x)) xs"
  using assms by (induction xs) (auto simp: List.map_filter_simps)

lemma valuesForStacking_rows:
  assumes I: "\<forall>t. (t \<in> set tss \<longrightarrow> (\<exists>r. vbt t = Some r \<and> set names \<subseteq> dom r)) \<and> (t \<notin> set tss \<longrightarrow> vbt t = None)"
  shows "valuesForStacking tss vbt = map (\<lambda>t. the (vbt t)) (sort (remdups tss))"
  unfolding valuesForStacking_def
  by (rule map_filter_all_Some) (use I in auto)

lemma offsetNone_from_length: "length (offsetNone_from s0 ss) = length ss"
  by (induction ss arbitrary: s0) (simp_all add: Let_def)

lemma offsetNone_from_lengths:
  assumes "length s0 = m" and "\<forall>s \<in> set ss. length s = m"
  shows "\<forall>s \<in> set (offsetNone_from s0 ss). length s = m"
  using assms
proof (induction ss arbitrary: s0)
  case Nil
  then show ?case by simp
next
  case (Cons s1 rest)
  define s1' where "s1' = map2 (\<lambda>(a0, b0) (a1, b1).
                        let y0 = (if b0 = NaN then a0 else b0) in (y0, js_add b1 y0)) s0 s1"
  have ls: "length s1' = m" using Cons.prems by (simp add: s1'_def)
  have res: "offsetNone_from s0 (s1 # rest) = s1' # offsetNone_from s1' rest"
    by (simp add: s1'_def Let_def)
  have "\<forall>s \<in> set (offsetNone_from s1' rest). length s = m"
    using Cons.prems(2) by (intro Cons.IH [OF ls]) simp
  with ls show ?case unfolding res by simp
qed

lemma d3_stack_length: "length (d3_stack keys data) = length keys"
  by (cases keys) (simp_all add: d3_stack_def offsetNone_from_length)

lemma d3_stack_lengths: "\<forall>s \<in> set (d3_stack keys data). length s = length data"
proof (cases keys)
  case Nil
  then show ?thesis by (simp add: d3_stack_def)
next
  case (Cons k ks)
  have "\<forall>s \<in> set (offsetNone_from (map (\<lambda>d. (Fin 0, stackValue d k)) data)
             (map (\<lambda>k. map (\<lambda>d. (Fin 0, stackValue d k)) data) ks)). length s = length data"
    by (rule offsetNone_from_lengths) simp_all
  then show ?thesis by (simp add: d3_stack_def Cons)
qed

lemma valid_window_processMultiSeries:
  assumes s: "0 < stepDurationSec p" and d: "startTimeSec p \<le> endTimeSec p"
  shows "\<exists>ms. processMultiSeries p = Inr ms"
proof -
  let ?names = "js_sort_strings (map (getSeriesName p) (multiSeries p))"
  let ?tss = "timestampSecs p"
  from valid_window_grid_nonempty [OF s d] getTimestampQuantizer_Inr
  obtain q :: quantizer where q: "getTimestampQuantizer p = Inr q" by blast
  have qr: "q_range q = ?tss" using getTimestampQuantizer_range [OF q] by simp
  have tot: "\<forall>x. \<exists>g \<in> set ?tss. quantize q x = Some g"
    using quantize_total [OF q] by simp
  from alignment_rows [OF tot, of ?names "enumerate_from0 (multiSeries p)"]
  obtain vbt where vbt: "foldM_err (storeSeries q ?names) (enumerate_from0 (multiSeries p))
        (initialValues ?tss ?names) = Inr vbt"
    and I: "\<forall>t. (t \<in> set ?tss \<longrightarrow> (\<exists>r. vbt t = Some r \<and> set ?names \<subseteq> dom r)) \<and>
               (t \<notin> set ?tss \<longrightarrow> vbt t = None)"
    by blast
  let ?sd = "d3_stack ?names (valuesForStacking ?tss vbt)"
  have rows: "length (valuesForStacking ?tss vbt) = length ?tss"
    using valid_window_grid_distinct [OF s d]
    by (simp add: valuesForStacking_rows [OF I])
  have each: "\<exists>sr. makeSeries (colorTheme p) ?tss vbt ?sd ni = Inr sr"
    if ni: "ni \<in> set (enumerate_from0 ?names)" for ni
  proof -
    have i: "snd ni < length ?names" using enumerate_from0_set [OF ni] by simp
    then have "snd ni < length ?sd" by (simp add: d3_stack_length)
    then have sdi: "nth_opt ?sd (snd ni) = Some (?sd ! snd ni)" "?sd ! snd ni \<in> set ?sd"
      by (simp_all add: nth_opt_def)
    then have li: "length (?sd ! snd ni) = length ?tss"
      using d3_stack_lengths [of ?names "valuesForStacking ?tss vbt"] rows by simp
    have "\<forall>ti \<in> set (enumerate_from0 ?tss). \<exists>dp. makeDatapoint vbt ?sd (fst ni) (snd ni) ti = Inr dp"
    proof
      fix ti assume "ti \<in> set (enumerate_from0 ?tss)"
      from enumerate_from0_set [OF this] have ti: "snd ti < length ?tss" "fst ti \<in> set ?tss"
        by simp_all
      from I ti(2) obtain r where r: "vbt (fst ti) = Some r" by blast
      have "nth_opt (?sd ! snd ni) (snd ti) = Some (?sd ! snd ni ! snd ti)"
        using ti(1) li by (simp add: nth_opt_def)
      then show "\<exists>dp. makeDatapoint vbt ?sd (fst ni) (snd ni) ti = Inr dp"
        by (simp add: makeDatapoint_def r sdi(1))
    qed
    from mapM_err_total [OF this] obtain dps where
      "mapM_err (makeDatapoint vbt ?sd (fst ni) (snd ni)) (enumerate_from0 ?tss) = Inr dps" by blast
    then show ?thesis by (simp add: makeSeries_def)
  qed
  then have "\<forall>ni \<in> set (enumerate_from0 ?names). \<exists>sr. makeSeries (colorTheme p) ?tss vbt ?sd ni = Inr sr"
    by blast
  from mapM_err_total [OF this] obtain ms where
    "mapM_err (makeSeries (colorTheme p) ?tss vbt ?sd) (enumerate_from0 ?names) = Inr ms" by blast
  then have "processMultiSeries p = Inr ms"
    by (simp add: processMultiSeries_def q qr vbt)
  then show ?thesis by blast
qed

subsection \<open>Which sample a slot holds\<close>

text \<open>
  A slot holds the value of the last sample stored into it. With distinct
  names, the slot of the name at position \<open>i\<close> is written only by the
  input series at position \<open>i\<close>. When the input series come in the order
  of their names, that is the series of that name: each aligned series then
  holds the samples of its own input series.
\<close>

lemma storePoint_cell:
  assumes g: "quantize q (fst pt) = Some g" and r: "vbt g = Some r"
  shows "\<exists>vbt'. storePoint q names idx pt vbt = Inr vbt' \<and>
           (\<forall>t n. (case vbt' t of Some r' \<Rightarrow> r' n | None \<Rightarrow> None) =
                  (if t = g \<and> n = names ! idx then Some (parseGraphValue (snd pt))
                   else (case vbt t of Some r' \<Rightarrow> r' n | None \<Rightarrow> None)))"
proof -
  let ?vbt' = "vbt(g \<mapsto> r(names ! idx \<mapsto> parseGraphValue (snd pt)))"
  have "storePoint q names idx pt vbt = Inr ?vbt'"
    by (simp add: storePoint_def g r)
  moreover have "(case ?vbt' t of Some r' \<Rightarrow> r' n | None \<Rightarrow> None) =
                  (if t = g \<and> n = names ! idx then Some (parseGraphValue (snd pt))
                   else (case vbt t of Some r' \<Rightarrow> r' n | None \<Rightarrow> None))" for t n
    using r by simp
  ultimately show ?thesis by blast
qed

lemma storePoints_cell:
  assumes tot: "\<forall>x. \<exists>g \<in> set tss. quantize q x = Some g"
    and I: "\<forall>t. (t \<in> set tss \<longrightarrow> (\<exists>r. vbt t = Some r \<and> set names \<subseteq> dom r)) \<and> (t \<notin> set tss \<longrightarrow> vbt t = None)"
    and res: "foldM_err (storePoint q names idx) pts vbt = Inr vbt'"
  shows "(case vbt' t of Some r' \<Rightarrow> r' n | None \<Rightarrow> None) =
           (if n = names ! idx \<and> filter (\<lambda>pt. quantize q (fst pt) = Some t) pts \<noteq> []
            then Some (parseGraphValue (snd (last (filter (\<lambda>pt. quantize q (fst pt) = Some t) pts))))
            else (case vbt t of Some r' \<Rightarrow> r' n | None \<Rightarrow> None))"
  using I res
proof (induction pts arbitrary: vbt)
  case Nil
  then show ?case by simp
next
  case (Cons pt pts)
  from tot obtain g where g: "g \<in> set tss" "quantize q (fst pt) = Some g" by blast
  with Cons.prems(1) obtain r where r: "vbt g = Some r" by blast
  from storePoint_cell [where q = q and pt = pt and g = g and vbt = vbt and r = r
      and names = names and idx = idx, OF g(2) r] obtain vbt1 where
    v1: "storePoint q names idx pt vbt = Inr vbt1"
    and c1: "\<And>t n. (case vbt1 t of Some r' \<Rightarrow> r' n | None \<Rightarrow> None) =
                  (if t = g \<and> n = names ! idx then Some (parseGraphValue (snd pt))
                   else (case vbt t of Some r' \<Rightarrow> r' n | None \<Rightarrow> None))"
    by blast
  from storePoint_rows [where tss = tss and q = q and pt = pt and vbt = vbt and names = names
      and idx = idx] tot Cons.prems(1) v1
  have I1: "\<forall>t. (t \<in> set tss \<longrightarrow> (\<exists>r. vbt1 t = Some r \<and> set names \<subseteq> dom r)) \<and> (t \<notin> set tss \<longrightarrow> vbt1 t = None)"
    by auto
  have r1: "foldM_err (storePoint q names idx) pts vbt1 = Inr vbt'"
    using Cons.prems(2) v1 by simp
  note IH = Cons.IH [OF I1 r1]
  show ?case
  proof (cases "filter (\<lambda>pt. quantize q (fst pt) = Some t) pts = []")
    case True
    then show ?thesis using IH c1 [where t = t and n = n] g(2) by auto
  next
    case False
    then show ?thesis using IH c1 [where t = t and n = n] g(2) by auto
  qed
qed

lemma alignment_cell:
  assumes tot: "\<forall>x. \<exists>g \<in> set tss. quantize q x = Some g"
    and I: "\<forall>t. (t \<in> set tss \<longrightarrow> (\<exists>r. vbt t = Some r \<and> set names \<subseteq> dom r)) \<and> (t \<notin> set tss \<longrightarrow> vbt t = None)"
    and dn: "distinct names" and i: "i < length names"
    and idx: "\<forall>si \<in> set sis. snd si < length names" and di: "distinct (map snd sis)"
    and res: "foldM_err (storeSeries q names) sis vbt = Inr vbt'"
  shows "(case vbt' t of Some r' \<Rightarrow> r' (names ! i) | None \<Rightarrow> None) =
           (case List.find (\<lambda>si. snd si = i) sis of
              None \<Rightarrow> (case vbt t of Some r' \<Rightarrow> r' (names ! i) | None \<Rightarrow> None)
            | Some si \<Rightarrow>
                if filter (\<lambda>pt. quantize q (fst pt) = Some t) (series_values (fst si)) \<noteq> []
                then Some (parseGraphValue (snd (last
                       (filter (\<lambda>pt. quantize q (fst pt) = Some t) (series_values (fst si))))))
                else (case vbt t of Some r' \<Rightarrow> r' (names ! i) | None \<Rightarrow> None))"
  using I idx di res
proof (induction sis arbitrary: vbt)
  case Nil
  then show ?case by simp
next
  case (Cons si sis)
  from storeSeries_rows [where si = si, OF tot Cons.prems(1)] obtain vbt1 where
    v1: "storeSeries q names si vbt = Inr vbt1"
    and I1: "\<forall>t. (t \<in> set tss \<longrightarrow> (\<exists>r. vbt1 t = Some r \<and> set names \<subseteq> dom r)) \<and> (t \<notin> set tss \<longrightarrow> vbt1 t = None)"
    by blast
  have r1: "foldM_err (storeSeries q names) sis vbt1 = Inr vbt'"
    using Cons.prems(4) v1 by simp
  have c1: "(case vbt1 t of Some r' \<Rightarrow> r' n | None \<Rightarrow> None) =
           (if n = names ! snd si \<and> filter (\<lambda>pt. quantize q (fst pt) = Some t) (series_values (fst si)) \<noteq> []
            then Some (parseGraphValue (snd (last (filter (\<lambda>pt. quantize q (fst pt) = Some t) (series_values (fst si))))))
            else (case vbt t of Some r' \<Rightarrow> r' n | None \<Rightarrow> None))" for n
    using storePoints_cell [where idx = "snd si" and pts = "series_values (fst si)" and vbt' = vbt1
        and t = t and n = n, OF tot Cons.prems(1)] v1
    by (simp add: storeSeries_def)
  have IH: "(case vbt' t of Some r' \<Rightarrow> r' (names ! i) | None \<Rightarrow> None) =
           (case List.find (\<lambda>si. snd si = i) sis of
              None \<Rightarrow> (case vbt1 t of Some r' \<Rightarrow> r' (names ! i) | None \<Rightarrow> None)
            | Some si \<Rightarrow>
                if filter (\<lambda>pt. quantize q (fst pt) = Some t) (series_values (fst si)) \<noteq> []
                then Some (parseGraphValue (snd (last
                       (filter (\<lambda>pt. quantize q (fst pt) = Some t) (series_values (fst si))))))
                else (case vbt1 t of Some r' \<Rightarrow> r' (names ! i) | None \<Rightarrow> None))"
    using Cons.prems(2,3) by (intro Cons.IH [OF I1 _ _ r1]) simp_all
  show ?case
  proof (cases "snd si = i")
    case True
    have "snd si \<notin> snd ` set sis" using Cons.prems(3) by simp
    then have "\<forall>x \<in> set sis. snd x \<noteq> i" using True by (metis imageI)
    then have "List.find (\<lambda>si. snd si = i) sis = None"
      by (simp only: find_None_iff) blast
    then show ?thesis using IH c1 [of "names ! i"] True by simp
  next
    case False
    have "snd si < length names" using Cons.prems(2) by simp
    then have "names ! i \<noteq> names ! snd si"
      using False i dn by (simp add: nth_eq_iff_index_eq)
    then have "(case vbt1 t of Some r' \<Rightarrow> r' (names ! i) | None \<Rightarrow> None) =
               (case vbt t of Some r' \<Rightarrow> r' (names ! i) | None \<Rightarrow> None)"
      using c1 [of "names ! i"] by simp
    then show ?thesis using IH False by (simp cong: option.case_cong if_cong)
  qed
qed

lemma ordered_input_alignment:
  assumes s: "0 < stepDurationSec p" and d: "startTimeSec p \<le> endTimeSec p"
    and srt: "sorted (map (getSeriesName p) (multiSeries p))"
    and dn: "distinct (map (getSeriesName p) (multiSeries p))"
    and pm: "processMultiSeries p = Inr ms"
    and i: "i < length (multiSeries p)" and j: "j < length (timestampSecs p)"
  shows "s_name (ms ! i) = getSeriesName p (multiSeries p ! i) \<and>
         dp_timestampSec (s_datapoints (ms ! i) ! j) = timestampSecs p ! j \<and>
         dp_value (s_datapoints (ms ! i) ! j) =
           (if filter (\<lambda>pt. quantizeAt p (fst pt) = Inr (Some (timestampSecs p ! j)))
                 (series_values (multiSeries p ! i)) = []
            then None
            else parseGraphValue (snd (last
                   (filter (\<lambda>pt. quantizeAt p (fst pt) = Inr (Some (timestampSecs p ! j)))
                      (series_values (multiSeries p ! i))))))"
proof -
  let ?names = "js_sort_strings (map (getSeriesName p) (multiSeries p))"
  let ?tss = "timestampSecs p"
  have names: "?names = map (getSeriesName p) (multiSeries p)"
    using srt by (simp add: js_sort_strings_def sort_key_id_if_sorted)
  from processMultiSeries_Inr [OF pm] obtain q :: quantizer and vbt where
    q: "getTimestampQuantizer p = Inr q"
    and fold: "foldM_err (storeSeries q ?names) (enumerate_from0 (multiSeries p))
                 (initialValues (q_range q) ?names) = Inr vbt"
    and m: "mapM_err (makeSeries (colorTheme p) (q_range q) vbt
          (d3_stack ?names (valuesForStacking (q_range q) vbt))) (enumerate_from0 ?names) = Inr ms"
    by auto
  have qr: "q_range q = ?tss" using getTimestampQuantizer_range [OF q] by simp
  have tot: "\<forall>x. \<exists>g \<in> set ?tss. quantize q x = Some g"
    using quantize_total [OF q] by simp
  have qa: "quantizeAt p x = Inr (Some g) \<longleftrightarrow> quantize q x = Some g" for x g
    by (simp add: quantizeAt_def q)
  have I0: "\<forall>t. (t \<in> set ?tss \<longrightarrow> (\<exists>r. initialValues ?tss ?names t = Some r \<and> set ?names \<subseteq> dom r)) \<and>
            (t \<notin> set ?tss \<longrightarrow> initialValues ?tss ?names t = None)"
    by (auto simp: initialValues_apply initial_row_apply dom_def)
  have I: "\<forall>t. (t \<in> set ?tss \<longrightarrow> (\<exists>r. vbt t = Some r \<and> set ?names \<subseteq> dom r)) \<and>
               (t \<notin> set ?tss \<longrightarrow> vbt t = None)"
    using alignment_rows [OF tot, of ?names "enumerate_from0 (multiSeries p)"] fold
    by (simp add: qr)
  have il: "i < length ?names" using i by (simp add: names)
  have tj: "?tss ! j \<in> set ?tss" using j by simp
  have ni: "?names ! i \<in> set ?names" using il by (rule nth_mem)
  let ?hits = "filter (\<lambda>pt. quantize q (fst pt) = Some (?tss ! j)) (series_values (multiSeries p ! i))"
  have cell: "(case vbt (?tss ! j) of Some r' \<Rightarrow> r' (?names ! i) | None \<Rightarrow> None) =
              (if ?hits \<noteq> [] then Some (parseGraphValue (snd (last ?hits))) else Some None)"
  proof -
    have "(case vbt (?tss ! j) of Some r' \<Rightarrow> r' (?names ! i) | None \<Rightarrow> None) =
           (case List.find (\<lambda>si. snd si = i) (enumerate_from0 (multiSeries p)) of
              None \<Rightarrow> (case initialValues ?tss ?names (?tss ! j) of Some r' \<Rightarrow> r' (?names ! i) | None \<Rightarrow> None)
            | Some si \<Rightarrow>
                if filter (\<lambda>pt. quantize q (fst pt) = Some (?tss ! j)) (series_values (fst si)) \<noteq> []
                then Some (parseGraphValue (snd (last
                       (filter (\<lambda>pt. quantize q (fst pt) = Some (?tss ! j)) (series_values (fst si))))))
                else (case initialValues ?tss ?names (?tss ! j) of Some r' \<Rightarrow> r' (?names ! i) | None \<Rightarrow> None))"
    proof (rule alignment_cell [OF tot I0 _ il])
      show "distinct ?names" using dn by (simp add: names)
      show "\<forall>si \<in> set (enumerate_from0 (multiSeries p)). snd si < length ?names"
        using enumerate_from0_set by (fastforce simp: names)
      show "distinct (map snd (enumerate_from0 (multiSeries p)))"
        by (simp add: enumerate_from0_def)
      show "foldM_err (storeSeries q ?names) (enumerate_from0 (multiSeries p))
              (initialValues ?tss ?names) = Inr vbt"
        using fold by (simp add: qr)
    qed
    moreover have "(case initialValues ?tss ?names (?tss ! j) of Some r' \<Rightarrow> r' (?names ! i) | None \<Rightarrow> None) =
                   Some None"
      using tj ni by (simp add: initialValues_apply initial_row_apply)
    ultimately show ?thesis
      by (simp add: enumerate_from0_find [OF i])
  qed
  from I tj obtain r where r: "vbt (?tss ! j) = Some r" by blast
  have li: "i < length ms"
    using mapM_err_Inr [OF m] il by (simp add: enumerate_from0_length)
  from series_datapoint [OF m li _ r [folded qr]] j
  have pt: "s_name (ms ! i) = ?names ! i"
    "dp_timestampSec (s_datapoints (ms ! i) ! j) = ?tss ! j"
    "dp_value (s_datapoints (ms ! i) ! j) = (case r (?names ! i) of Some v \<Rightarrow> v | None \<Rightarrow> None)"
    by (simp_all add: qr)
  have "dp_value (s_datapoints (ms ! i) ! j) =
          (if ?hits = [] then None else parseGraphValue (snd (last ?hits)))"
    using cell r pt(3) by (simp split: if_splits)
  moreover have "s_name (ms ! i) = getSeriesName p (multiSeries p ! i)"
    using pt(1) i by (simp add: names)
  ultimately show ?thesis using pt(2) by (simp add: qa)
qed

text \<open>
  Claim C1 says that every sample is stored under the name of its own
  series. For the input order \<open>b\<close>, \<open>a\<close> the code stores the sample \<open>1\<close> of
  \<open>b\<close> under \<open>a\<close> and the sample \<open>2\<close> of \<open>a\<close> under \<open>b\<close>: it reads the name
  from the sorted names at the unsorted position.
\<close>

theorem swapped_series_values_exchanged:
  "map_sum id (map seriesSummary) (processMultiSeries swappedSeries) =
     Inr [(''a'', [(0, Some (Fin 1), Fin 0)]), (''b'', [(0, Some (Fin 2), Fin 1)])]"
  by code_simp

subsection \<open>Stack offsets\<close>

text \<open>
  Over finite values and gaps, \<open>stack\<close> puts each series on the sum of the
  series before it. On a grid in ascending order the rows are read back at
  their own timestamps, and the stored offset of a series is the sum of the
  values below it at that timestamp.
\<close>

lemma offsetNone_from_nth:
  assumes "length s0 = m" and "\<forall>s \<in> set ss. length s = m" and "j < m"
    and "snd (s0 ! j) = Fin B" and "\<forall>k<length ss. snd (ss ! k ! j) = Fin (v k)"
    and "i < length ss"
  shows "offsetNone_from s0 ss ! i ! j = (Fin (B + (\<Sum>k<i. v k)), Fin (B + (\<Sum>k<Suc i. v k)))"
  using assms
proof (induction ss arbitrary: s0 B v i)
  case Nil
  then show ?case by simp
next
  case (Cons s1 rest)
  define s1' where "s1' = map2 (\<lambda>(a0, b0) (a1, b1).
                        let y0 = (if b0 = NaN then a0 else b0) in (y0, js_add b1 y0)) s0 s1"
  have l1: "length s1 = m" using Cons.prems(2) by simp
  have ls: "length s1' = m" by (simp add: s1'_def Cons.prems(1) l1)
  have v0: "snd (s1 ! j) = Fin (v 0)" using Cons.prems(5) by auto
  have s1j: "s1' ! j = (Fin B, Fin (v 0 + B))"
    using Cons.prems(1,3,4) l1 v0
    by (simp add: s1'_def case_prod_unfold)
  have res: "offsetNone_from s0 (s1 # rest) = s1' # offsetNone_from s1' rest"
    by (simp add: s1'_def Let_def)
  show ?case
  proof (cases i)
    case 0
    then show ?thesis unfolding res using s1j by simp
  next
    case (Suc i')
    have "offsetNone_from s1' rest ! i' ! j =
            (Fin ((v 0 + B) + (\<Sum>k<i'. v (Suc k))), Fin ((v 0 + B) + (\<Sum>k<Suc i'. v (Suc k))))"
    proof (rule Cons.IH [OF ls _ Cons.prems(3)])
      show "\<forall>s \<in> set rest. length s = m" using Cons.prems(2) by simp
      show "snd (s1' ! j) = Fin (v 0 + B)" using s1j by simp
      show "\<forall>k<length rest. snd (rest ! k ! j) = Fin (v (Suc k))" using Cons.prems(5) by auto
      show "i' < length rest" using Cons.prems(6) Suc by simp
    qed
    moreover have "(v 0 + B) + (\<Sum>k<n. v (Suc k)) = B + (\<Sum>k<Suc n. v k)" for n
      using sum.lessThan_Suc_shift [of v n] by (simp add: comp_def)
    ultimately show ?thesis using Suc by (simp only: res nth_Cons_Suc)
  qed
qed

lemma d3_stack_nth:
  assumes i: "i < length keys" and j: "j < length data"
    and fin: "\<forall>k<length keys. stackValue (data ! j) (keys ! k) = Fin (v k)"
  shows "d3_stack keys data ! i ! j = (Fin (\<Sum>k<i. v k), Fin (\<Sum>k<Suc i. v k))"
proof (cases keys)
  case Nil
  with i show ?thesis by simp
next
  case (Cons k0 ks)
  let ?s0 = "map (\<lambda>d. (Fin 0, stackValue d k0)) data"
  let ?ss = "map (\<lambda>k. map (\<lambda>d. (Fin 0, stackValue d k)) data) ks"
  have st: "d3_stack keys data = ?s0 # offsetNone_from ?s0 ?ss"
    by (simp add: d3_stack_def Cons)
  have v0: "stackValue (data ! j) k0 = Fin (v 0)" using fin Cons by auto
  show ?thesis
  proof (cases i)
    case 0
    then show ?thesis using j v0 by (simp add: st)
  next
    case (Suc i')
    have "offsetNone_from ?s0 ?ss ! i' ! j =
            (Fin (v 0 + (\<Sum>k<i'. v (Suc k))), Fin (v 0 + (\<Sum>k<Suc i'. v (Suc k))))"
    proof (rule offsetNone_from_nth [where m = "length data"])
      show "length ?s0 = length data" by simp
      show "\<forall>s \<in> set ?ss. length s = length data" by simp
      show "j < length data" by (rule j)
      show "snd (?s0 ! j) = Fin (v 0)" using j v0 by simp
      show "\<forall>k<length ?ss. snd (?ss ! k ! j) = Fin (v (Suc k))"
        using fin j Cons by auto
      show "i' < length ?ss" using i Suc Cons by simp
    qed
    moreover have "v 0 + (\<Sum>k<n. v (Suc k)) = (\<Sum>k<Suc n. v k)" for n
      using sum.lessThan_Suc_shift [of v n] by (simp add: comp_def)
    ultimately show ?thesis using Suc by (simp only: st nth_Cons_Suc)
  qed
qed

lemma sorted_grid_stack_offsets:
  assumes s: "0 < stepDurationSec p" and d: "startTimeSec p \<le> endTimeSec p"
    and srt: "sorted (timestampSecs p)"
    and pm: "processMultiSeries p = Inr ms"
    and j: "j < length (timestampSecs p)"
    and fin: "\<forall>k<length ms. toNumber (dp_value (s_datapoints (ms ! k) ! j)) = Fin (v k)"
    and i: "i < length ms"
  shows "dp_timestampSec (s_datapoints (ms ! i) ! j) = timestampSecs p ! j \<and>
         dp_offset (s_datapoints (ms ! i) ! j) = Fin (\<Sum>k<i. v k)"
proof -
  let ?names = "js_sort_strings (map (getSeriesName p) (multiSeries p))"
  let ?tss = "timestampSecs p"
  from processMultiSeries_Inr [OF pm] obtain q :: quantizer and vbt where
    q: "getTimestampQuantizer p = Inr q"
    and fold: "foldM_err (storeSeries q ?names) (enumerate_from0 (multiSeries p))
                 (initialValues (q_range q) ?names) = Inr vbt"
    and m: "mapM_err (makeSeries (colorTheme p) (q_range q) vbt
          (d3_stack ?names (valuesForStacking (q_range q) vbt))) (enumerate_from0 ?names) = Inr ms"
    by auto
  have qr: "q_range q = ?tss" using getTimestampQuantizer_range [OF q] by simp
  have tot: "\<forall>x. \<exists>g \<in> set ?tss. quantize q x = Some g"
    using quantize_total [OF q] by simp
  have I: "\<forall>t. (t \<in> set ?tss \<longrightarrow> (\<exists>r. vbt t = Some r \<and> set ?names \<subseteq> dom r)) \<and>
               (t \<notin> set ?tss \<longrightarrow> vbt t = None)"
    using alignment_rows [OF tot, of ?names "enumerate_from0 (multiSeries p)"] fold
    by (simp add: qr)
  let ?rows = "valuesForStacking ?tss vbt"
  let ?sd = "d3_stack ?names ?rows"
  have dist: "distinct ?tss" by (rule valid_window_grid_distinct [OF s d])
  have "sort (remdups ?tss) = ?tss"
    using dist srt by (simp add: distinct_remdups_id sort_key_id_if_sorted)
  then have rows: "?rows = map (\<lambda>t. the (vbt t)) ?tss"
    by (simp add: valuesForStacking_rows [OF I])
  from I j obtain r where r: "vbt (?tss ! j) = Some r" "set ?names \<subseteq> dom r"
    by (meson nth_mem)
  have rowj: "?rows ! j = r" using j r(1) by (simp add: rows)
  note mm = mapM_err_Inr [OF m]
  have len: "length ms = length ?names" using mm by (simp add: enumerate_from0_length)
  have point: "dp_timestampSec (s_datapoints (ms ! k) ! j) = ?tss ! j \<and>
               dp_value (s_datapoints (ms ! k) ! j) = (case r (?names ! k) of Some v \<Rightarrow> v | None \<Rightarrow> None) \<and>
               dp_offset (s_datapoints (ms ! k) ! j) = fst (?sd ! k ! j)"
    if k: "k < length ms" for k
  proof -
    have "makeSeries (colorTheme p) ?tss vbt ?sd (enumerate_from0 ?names ! k) = Inr (ms ! k)"
      using mm k len by (simp add: enumerate_from0_length qr)
    then have "makeSeries (colorTheme p) ?tss vbt ?sd (?names ! k, k) = Inr (ms ! k)"
      using k len by (simp add: enumerate_from0_nth)
    from makeSeries_Inr [OF this]
    have md: "mapM_err (makeDatapoint vbt ?sd (?names ! k) k) (enumerate_from0 ?tss) = Inr (s_datapoints (ms ! k))"
      by simp
    from mapM_err_Inr [OF md] j
    have "makeDatapoint vbt ?sd (?names ! k) k (?tss ! j, j) = Inr (s_datapoints (ms ! k) ! j)"
      by (simp add: enumerate_from0_length enumerate_from0_nth [symmetric])
    from makeDatapoint_Inr [OF this] r(1) show ?thesis
      by (auto simp: nth_opt_def split: if_splits)
  qed
  have sv: "stackValue (?rows ! j) (?names ! k) = Fin (v k)" if k: "k < length ?names" for k
  proof -
    have "?names ! k \<in> set ?names" using k by (rule nth_mem)
    then have "?names ! k \<in> dom r" using r(2) by (rule subsetD [rotated])
    then obtain val where val: "r (?names ! k) = Some val" by auto
    then have "dp_value (s_datapoints (ms ! k) ! j) = val"
      using point [of k] k len by simp
    with fin k len have "toNumber val = Fin (v k)" by auto
    then show ?thesis by (simp add: stackValue_def rowj val)
  qed
  have "?sd ! i ! j = (Fin (\<Sum>k<i. v k), Fin (\<Sum>k<Suc i. v k))"
  proof (rule d3_stack_nth)
    show "i < length ?names" using i len by simp
    show "j < length ?rows" using j by (simp add: rows)
    show "\<forall>k<length ?names. stackValue (?rows ! j) (?names ! k) = Fin (v k)"
      using sv by blast
  qed
  with point [OF i] show ?thesis by simp
qed

text \<open>
  Claim C5 says that the stored offset of a series is the sum of the values
  of the series below it at the same timestamp. On the grid \<open>8, 9, 10\<close>,
  which the default sort orders as \<open>10, 8, 9\<close>, series \<open>b\<close> has the offset
  \<open>0\<close> at timestamp \<open>10\<close>, where \<open>a\<close> is \<open>5\<close>, and the offset \<open>5\<close> at
  timestamp \<open>9\<close>, where \<open>a\<close> is a gap.
\<close>

theorem mixed_digits_offsets_misplaced:
  "map_sum id (map seriesSummary) (processMultiSeries mixedDigits) =
     Inr [(''a'', [(10, Some (Fin 5), Fin 0), (8, None, Fin 0), (9, None, Fin 0)]),
          (''b'', [(10, None, Fin 0), (8, None, Fin 0), (9, None, Fin 5)])]"
  by code_simp

section \<open>Hover resolution\<close>

text \<open>
  On a grid in ascending order, with the aligned series of the same window
  in the state, the datapoint lookup finds the datapoint of the hovered
  timestamp in every visible series, and the pointer move does not throw.
\<close>

lemma lookup_on_sorted_grid:
  assumes "sorted (map dp_timestampSec (s_datapoints s))"
    and "g \<in> set (map dp_timestampSec (s_datapoints s))"
  shows "\<exists>d. getDatapointAtTimestamp s (Some g) = Some d \<and> dp_timestampSec d = g"
proof -
  let ?a = "map dp_timestampSec (s_datapoints s)"
  from sortedIndex_finds [OF assms]
  have "sortedIndex ?a g < length ?a" "?a ! sortedIndex ?a g = g" by simp_all
  then show ?thesis
    by (simp add: getDatapointAtTimestamp_def nth_opt_def)
qed

lemma sorted_grid_hover_succeeds:
  assumes s: "0 < stepDurationSec p" and d: "startTimeSec p \<le> endTimeSec p"
    and srt: "sorted (timestampSecs p)"
    and pm: "processMultiSeries p = Inr (state_multiSeries st)"
  shows "\<exists>st' g. handleGraphMouseMove p st c x = Inr st' \<and> hoverTimestampSec st' = Some g \<and>
           g \<in> set (timestampSecs p) \<and>
           (\<forall>series \<in> set (getVisibleMultiSeries st).
              \<exists>dp. getDatapointAtTimestamp series (Some g) = Some dp \<and> dp_timestampSec dp = g)"
proof -
  from valid_window_grid_nonempty [OF s d] getTimestampQuantizer_Inr
  obtain q :: quantizer where q: "getTimestampQuantizer p = Inr q" by blast
  from quantize_total [OF q] obtain g where g: "g \<in> set (timestampSecs p)" "quantize q x = Some g"
    by blast
  have look: "\<exists>dp. getDatapointAtTimestamp series (Some g) = Some dp \<and> dp_timestampSec dp = g"
    if "series \<in> set (getVisibleMultiSeries st)" for series
  proof -
    have "series \<in> set (state_multiSeries st)"
      using that by (auto simp: getVisibleMultiSeries_def split: if_splits)
    from processMultiSeries_timestamps [OF pm this]
    have "map dp_timestampSec (s_datapoints series) = timestampSecs p" .
    with srt g(1) show ?thesis by (intro lookup_on_sorted_grid) simp_all
  qed
  have "\<forall>series \<in> set (getVisibleMultiSeries st). \<exists>h. makeHoverPoint (showStacked p) st (Some g) series = Inr h"
  proof
    fix series assume "series \<in> set (getVisibleMultiSeries st)"
    from look [OF this] obtain dp where "getDatapointAtTimestamp series (Some g) = Some dp" by blast
    then show "\<exists>h. makeHoverPoint (showStacked p) st (Some g) series = Inr h"
      by (simp add: makeHoverPoint_def)
  qed
  from mapM_err_total [OF this] obtain hps where
    "mapM_err (makeHoverPoint (showStacked p) st (Some g)) (getVisibleMultiSeries st) = Inr hps"
    by blast
  then have "handleGraphMouseMove p st c x =
      Inr (st\<lparr>hoverTimestampSec := Some g,
              hoverPoints := Some (resolveFocus (showStacked p) (simpleTooltip p) c hps)\<rparr>)"
    by (simp add: handleGraphMouseMove_def q g(2))
  with g(1) look show ?thesis by simp
qed

text \<open>
  Claim C9 says that the datapoint lookup of a hover never fails. On the
  grid \<open>8, 9, 10\<close>, ordered as \<open>10, 8, 9\<close>, a cursor at timestamp \<open>8\<close> is
  quantized to \<open>10\<close>, the binary search for \<open>10\<close> ends past the last
  datapoint, and reading the missing datapoint throws.
\<close>

theorem mixed_digits_hover_throws:
  "quantizeAt mixedDigits 8 = Inr (Some 10) \<and>
   hoverAfterMount mixedDigits (Fin 1) 8 = Inl TypeError"
  by code_simp

subsection \<open>The focus\<close>

text \<open>
  On numbers other than \<open>NaN\<close> the comparison \<open><\<close> is a strict linear
  order, and a number that is \<open>>=\<close> another is not \<open>NaN\<close>.
\<close>

lemma js_ge_not_NaN: "js_ge a c \<Longrightarrow> a \<noteq> NaN"
  by (cases a) auto

lemma js_lt_irrefl: "\<not> js_lt a a"
  by (cases a) auto

lemma js_lt_trans: "js_lt a b \<Longrightarrow> js_lt b c \<Longrightarrow> js_lt a c"
  by (cases a; cases b; cases c) auto

lemma js_lt_total: "a \<noteq> NaN \<Longrightarrow> b \<noteq> NaN \<Longrightarrow> js_lt a b \<or> a = b \<or> js_lt b a"
  by (cases a; cases b) auto

lemma js_lt_asym: "js_lt a b \<Longrightarrow> \<not> js_lt b a"
  by (cases a; cases b) auto

text \<open>
  The scan of \<open>baseExtremum\<close> over the elements that pass a filter keeps, as
  its current element, the first of the smallest elements seen so far: every
  passing element before it is strictly larger, none after it is smaller.
\<close>

lemma baseExtremum_filter_Some:
  assumes "\<forall>v \<in> set vs. P v \<longrightarrow> (\<exists>c. f v = Some c \<and> c \<noteq> NaN)"
    and "\<forall>v \<in> set ps. P v \<longrightarrow> (\<exists>c. f v = Some c \<and> c \<noteq> NaN)"
    and "ps = ys @ r # zs" and "P r" and "f r = Some m"
    and "\<forall>y \<in> set ys. P y \<longrightarrow> js_lt m (the (f y))"
    and "\<forall>z \<in> set zs. P z \<longrightarrow> \<not> js_lt (the (f z)) m"
  shows "\<exists>m' r' ys' zs'. baseExtremum f (filter P vs) (Some (m, r)) = Some (m', r') \<and>
           ps @ vs = ys' @ r' # zs' \<and> P r' \<and> f r' = Some m' \<and>
           (\<forall>y \<in> set ys'. P y \<longrightarrow> js_lt m' (the (f y))) \<and>
           (\<forall>z \<in> set zs'. P z \<longrightarrow> \<not> js_lt (the (f z)) m')"
  using assms
proof (induction vs arbitrary: ps ys r zs m)
  case Nil
  then show ?case by auto
next
  case (Cons v vs)
  show ?case
  proof (cases "P v")
    case False
    have "\<exists>m' r' ys' zs'. baseExtremum f (filter P vs) (Some (m, r)) = Some (m', r') \<and>
           (ps @ [v]) @ vs = ys' @ r' # zs' \<and> P r' \<and> f r' = Some m' \<and>
           (\<forall>y \<in> set ys'. P y \<longrightarrow> js_lt m' (the (f y))) \<and>
           (\<forall>z \<in> set zs'. P z \<longrightarrow> \<not> js_lt (the (f z)) m')"
    proof (rule Cons.IH [where ys = ys and zs = "zs @ [v]"])
      show "\<forall>v \<in> set vs. P v \<longrightarrow> (\<exists>c. f v = Some c \<and> c \<noteq> NaN)" using Cons.prems(1) by simp
      show "\<forall>u \<in> set (ps @ [v]). P u \<longrightarrow> (\<exists>c. f u = Some c \<and> c \<noteq> NaN)"
        using Cons.prems(2) False by auto
      show "ps @ [v] = ys @ r # zs @ [v]" using Cons.prems(3) by simp
      show "P r" by fact
      show "f r = Some m" by fact
      show "\<forall>y \<in> set ys. P y \<longrightarrow> js_lt m (the (f y))" by fact
      show "\<forall>z \<in> set (zs @ [v]). P z \<longrightarrow> \<not> js_lt (the (f z)) m"
        using Cons.prems(7) False by auto
    qed
    then show ?thesis using False by simp
  next
    case True
    then obtain c where c: "f v = Some c" "c \<noteq> NaN"
      using Cons.prems(1) by auto
    have mN: "m \<noteq> NaN"
      using Cons.prems(2,3,4,5) by auto
    show ?thesis
    proof (cases "js_lt c m")
      case lt: True
      have "\<exists>m' r' ys' zs'. baseExtremum f (filter P vs) (Some (c, v)) = Some (m', r') \<and>
           (ps @ [v]) @ vs = ys' @ r' # zs' \<and> P r' \<and> f r' = Some m' \<and>
           (\<forall>y \<in> set ys'. P y \<longrightarrow> js_lt m' (the (f y))) \<and>
           (\<forall>z \<in> set zs'. P z \<longrightarrow> \<not> js_lt (the (f z)) m')"
      proof (rule Cons.IH [where ys = ps and zs = "[]"])
        show "\<forall>v \<in> set vs. P v \<longrightarrow> (\<exists>c. f v = Some c \<and> c \<noteq> NaN)" using Cons.prems(1) by simp
        show "\<forall>u \<in> set (ps @ [v]). P u \<longrightarrow> (\<exists>c. f u = Some c \<and> c \<noteq> NaN)"
          using Cons.prems(2) c by auto
        show "ps @ [v] = ps @ v # []" by simp
        show "P v" by fact
        show "f v = Some c" by fact
        show "\<forall>y \<in> set ps. P y \<longrightarrow> js_lt c (the (f y))"
        proof (intro ballI impI)
          fix y assume y: "y \<in> set ps" "P y"
          then obtain d where d: "f y = Some d" "d \<noteq> NaN" using Cons.prems(2) by auto
          from y(1) Cons.prems(3) consider "y \<in> set ys" | "y = r" | "y \<in> set zs" by auto
          then show "js_lt c (the (f y))"
          proof cases
            case 1
            then have "js_lt m d" using Cons.prems(6) y(2) d by auto
            with lt show ?thesis using d js_lt_trans by auto
          next
            case 2
            then show ?thesis using lt Cons.prems(5) by simp
          next
            case 3
            then have "\<not> js_lt d m" using Cons.prems(7) y(2) d by auto
            then have "m = d \<or> js_lt m d" using js_lt_total [OF mN d(2)] by auto
            then show ?thesis using lt d js_lt_trans by auto
          qed
        qed
        show "\<forall>z \<in> set []. P z \<longrightarrow> \<not> js_lt (the (f z)) c" by simp
      qed
      then show ?thesis using True c lt by simp
    next
      case nlt: False
      have "\<exists>m' r' ys' zs'. baseExtremum f (filter P vs) (Some (m, r)) = Some (m', r') \<and>
           (ps @ [v]) @ vs = ys' @ r' # zs' \<and> P r' \<and> f r' = Some m' \<and>
           (\<forall>y \<in> set ys'. P y \<longrightarrow> js_lt m' (the (f y))) \<and>
           (\<forall>z \<in> set zs'. P z \<longrightarrow> \<not> js_lt (the (f z)) m')"
      proof (rule Cons.IH [where ys = ys and zs = "zs @ [v]"])
        show "\<forall>v \<in> set vs. P v \<longrightarrow> (\<exists>c. f v = Some c \<and> c \<noteq> NaN)" using Cons.prems(1) by simp
        show "\<forall>u \<in> set (ps @ [v]). P u \<longrightarrow> (\<exists>c. f u = Some c \<and> c \<noteq> NaN)"
          using Cons.prems(2) c by auto
        show "ps @ [v] = ys @ r # zs @ [v]" using Cons.prems(3) by simp
        show "P r" by fact
        show "f r = Some m" by fact
        show "\<forall>y \<in> set ys. P y \<longrightarrow> js_lt m (the (f y))" by fact
        show "\<forall>z \<in> set (zs @ [v]). P z \<longrightarrow> \<not> js_lt (the (f z)) m"
          using Cons.prems(7) nlt c by auto
      qed
      then show ?thesis using True c nlt by simp
    qed
  qed
qed

lemma minBy_filter_first_min:
  assumes ok: "\<forall>v \<in> set xs. P v \<longrightarrow> (\<exists>c. f v = Some c \<and> c \<noteq> NaN)"
  shows "(minBy f (filter P xs) = None \<and> (\<forall>v \<in> set xs. \<not> P v)) \<or>
         (\<exists>r ys zs. minBy f (filter P xs) = Some r \<and> xs = ys @ r # zs \<and> P r \<and>
            (\<forall>y \<in> set ys. P y \<longrightarrow> js_lt (the (f r)) (the (f y))) \<and>
            (\<forall>z \<in> set zs. P z \<longrightarrow> \<not> js_lt (the (f z)) (the (f r))))"
  using ok
proof (induction xs)
  case Nil
  then show ?case by (simp add: minBy_def)
next
  case (Cons x xs)
  show ?case
  proof (cases "P x")
    case False
    from Cons.IH Cons.prems have
      "(minBy f (filter P xs) = None \<and> (\<forall>v \<in> set xs. \<not> P v)) \<or>
         (\<exists>r ys zs. minBy f (filter P xs) = Some r \<and> xs = ys @ r # zs \<and> P r \<and>
            (\<forall>y \<in> set ys. P y \<longrightarrow> js_lt (the (f r)) (the (f y))) \<and>
            (\<forall>z \<in> set zs. P z \<longrightarrow> \<not> js_lt (the (f z)) (the (f r))))"
      by simp
    then show ?thesis
    proof
      assume "minBy f (filter P xs) = None \<and> (\<forall>v \<in> set xs. \<not> P v)"
      then show ?thesis using False by (simp add: minBy_def)
    next
      assume "\<exists>r ys zs. minBy f (filter P xs) = Some r \<and> xs = ys @ r # zs \<and> P r \<and>
            (\<forall>y \<in> set ys. P y \<longrightarrow> js_lt (the (f r)) (the (f y))) \<and>
            (\<forall>z \<in> set zs. P z \<longrightarrow> \<not> js_lt (the (f z)) (the (f r)))"
      then obtain r ys zs where h: "minBy f (filter P xs) = Some r" "xs = ys @ r # zs" "P r"
            "\<forall>y \<in> set ys. P y \<longrightarrow> js_lt (the (f r)) (the (f y))"
            "\<forall>z \<in> set zs. P z \<longrightarrow> \<not> js_lt (the (f z)) (the (f r))"
        by blast
      have "minBy f (filter P (x # xs)) = Some r \<and> x # xs = (x # ys) @ r # zs \<and> P r \<and>
            (\<forall>y \<in> set (x # ys). P y \<longrightarrow> js_lt (the (f r)) (the (f y))) \<and>
            (\<forall>z \<in> set zs. P z \<longrightarrow> \<not> js_lt (the (f z)) (the (f r)))"
        using h False by simp
      then show ?thesis by blast
    qed
  next
    case True
    then obtain c where c: "f x = Some c" "c \<noteq> NaN" using Cons.prems by auto
    have "\<exists>m' r' ys' zs'. baseExtremum f (filter P xs) (Some (c, x)) = Some (m', r') \<and>
           [x] @ xs = ys' @ r' # zs' \<and> P r' \<and> f r' = Some m' \<and>
           (\<forall>y \<in> set ys'. P y \<longrightarrow> js_lt m' (the (f y))) \<and>
           (\<forall>z \<in> set zs'. P z \<longrightarrow> \<not> js_lt (the (f z)) m')"
    proof (rule baseExtremum_filter_Some [where ys = "[]" and zs = "[]"])
      show "\<forall>v \<in> set xs. P v \<longrightarrow> (\<exists>c. f v = Some c \<and> c \<noteq> NaN)" using Cons.prems by simp
      show "\<forall>v \<in> set [x]. P v \<longrightarrow> (\<exists>c. f v = Some c \<and> c \<noteq> NaN)" using c by simp
    qed (use True c in simp_all)
    then obtain m' r' ys' zs' where h: "baseExtremum f (filter P xs) (Some (c, x)) = Some (m', r')"
           "x # xs = ys' @ r' # zs'" "P r'" "f r' = Some m'"
           "\<forall>y \<in> set ys'. P y \<longrightarrow> js_lt m' (the (f y))"
           "\<forall>z \<in> set zs'. P z \<longrightarrow> \<not> js_lt (the (f z)) m'"
      by auto
    have "minBy f (filter P (x # xs)) = Some r'"
      using True c h(1) by (simp add: minBy_def)
    with h show ?thesis by auto
  qed
qed

lemma focus_stacked_index:
  assumes keys: "distinct (map hp_key hps)"
    and gv: "\<forall>h \<in> set hps. hp_graphValue h \<noteq> None"
    and i: "i < length hps"
  shows "hp_focused (withFocus (focusedSeries True c hps) (hps ! i)) \<longleftrightarrow>
         js_ge (toNumber (hp_graphValue (hps ! i))) c \<and>
         (\<forall>j<length hps. js_ge (toNumber (hp_graphValue (hps ! j))) c \<longrightarrow>
              \<not> js_lt (toNumber (hp_graphValue (hps ! j))) (toNumber (hp_graphValue (hps ! i)))) \<and>
         (\<forall>j<i. js_ge (toNumber (hp_graphValue (hps ! j))) c \<longrightarrow>
              toNumber (hp_graphValue (hps ! j)) \<noteq> toNumber (hp_graphValue (hps ! i)))"
    (is "?L \<longleftrightarrow> ?R")
proof -
  define P where "P = (\<lambda>s :: hover_point. js_ge (toNumber (hp_graphValue s)) c)"
  define G where "G = (\<lambda>s :: hover_point. toNumber (hp_graphValue s))"
  have the_G: "the (hp_graphValue h) = G h" if "h \<in> set hps" for h
    using gv that by (auto simp: G_def)
  have PN: "G h \<noteq> NaN" if "P h" for h
    using that js_ge_not_NaN by (auto simp: P_def G_def)
  have ok: "\<forall>v \<in> set hps. P v \<longrightarrow> (\<exists>c. hp_graphValue v = Some c \<and> c \<noteq> NaN)"
  proof (intro ballI impI)
    fix v assume v: "v \<in> set hps" "P v"
    then obtain x where x: "hp_graphValue v = Some x" using gv by auto
    with PN [OF v(2)] show "\<exists>c. hp_graphValue v = Some c \<and> c \<noteq> NaN" by (simp add: G_def)
  qed
  have fs: "focusedSeries True c hps = minBy hp_graphValue (filter P hps)"
    by (simp add: focusedSeries_def P_def)
  have R: "?R \<longleftrightarrow> P (hps ! i) \<and> (\<forall>j<length hps. P (hps ! j) \<longrightarrow> \<not> js_lt (G (hps ! j)) (G (hps ! i))) \<and>
         (\<forall>j<i. P (hps ! j) \<longrightarrow> G (hps ! j) \<noteq> G (hps ! i))"
    by (simp add: P_def G_def)
  from minBy_filter_first_min [OF ok] consider
    (none) "minBy hp_graphValue (filter P hps) = None" "\<forall>v \<in> set hps. \<not> P v"
  | (some) r ys zs where "minBy hp_graphValue (filter P hps) = Some r" "hps = ys @ r # zs" "P r"
        "\<forall>y \<in> set ys. P y \<longrightarrow> js_lt (the (hp_graphValue r)) (the (hp_graphValue y))"
        "\<forall>z \<in> set zs. P z \<longrightarrow> \<not> js_lt (the (hp_graphValue z)) (the (hp_graphValue r))"
    by (elim disjE exE conjE) auto
  then show ?thesis
  proof cases
    case none
    have "focusedSeries True c hps = None" by (simp only: fs none(1))
    then have "\<not> ?L" by (simp add: withFocus_def)
    moreover have "\<not> P (hps ! i)" using none(2) i by simp
    ultimately show ?thesis using R by simp
  next
    case some
    define k where "k = length ys"
    have k: "k < length hps" "hps ! k = r" by (simp_all add: some(2) k_def)
    have before: "js_lt (G r) (G (hps ! j))" if "j < k" "P (hps ! j)" for j
    proof -
      have m: "hps ! j = ys ! j" "ys ! j \<in> set ys" using that(1) by (simp_all add: some(2) k_def nth_append)
      then have "hps ! j \<in> set hps" using some(2) by auto
      moreover have "r \<in> set hps" using some(2) by simp
      ultimately show ?thesis using some(4) m that(2) the_G by (metis)
    qed
    have after: "\<not> js_lt (G (hps ! j)) (G r)" if "k < j" "j < length hps" "P (hps ! j)" for j
    proof -
      have "hps ! j = (r # zs) ! (j - k)"
        using that(1) by (simp add: some(2) k_def nth_append)
      also have "\<dots> = zs ! (j - k - 1)"
        using that(1) by (simp add: nth_Cons')
      finally have "hps ! j = zs ! (j - k - 1)" .
      moreover have "j - k - 1 < length zs"
        using that(1,2) by (simp add: some(2) k_def)
      ultimately have m: "hps ! j \<in> set zs" by simp
      then have "hps ! j \<in> set hps" using some(2) by auto
      moreover have "r \<in> set hps" using some(2) by simp
      ultimately show ?thesis using some(5) m that(3) the_G by (metis)
    qed
    have L: "?L \<longleftrightarrow> i = k"
    proof -
      have "focusedSeries True c hps = Some r" by (simp only: fs some(1))
      then have "?L \<longleftrightarrow> hp_key r = hp_key (hps ! i)" by (simp add: withFocus_def)
      also have "\<dots> \<longleftrightarrow> map hp_key hps ! k = map hp_key hps ! i" using i k by simp
      also have "\<dots> \<longleftrightarrow> k = i" using nth_eq_iff_index_eq [OF keys, of k i] i k by simp
      finally show ?thesis by auto
    qed
    have "?R \<longleftrightarrow> i = k"
    proof
      assume "i = k"
      have "P (hps ! k)" using k some(3) by simp
      moreover have "\<not> js_lt (G (hps ! j)) (G (hps ! k))" if "j < length hps" "P (hps ! j)" for j
      proof -
        consider "j < k" | "j = k" | "k < j" by linarith
        then show ?thesis
        proof cases
          case 1
          from before [OF 1 that(2)] show ?thesis using k js_lt_asym by auto
        next
          case 2
          then show ?thesis by (simp add: js_lt_irrefl)
        next
          case 3
          from after [OF 3 that] show ?thesis using k by simp
        qed
      qed
      moreover have "G (hps ! j) \<noteq> G (hps ! k)" if "j < k" "P (hps ! j)" for j
        using before [OF that] k js_lt_irrefl by auto
      ultimately show ?R using R \<open>i = k\<close> by blast
    next
      assume r: ?R
      then have Pi: "P (hps ! i)"
        and mn: "\<And>j. j < length hps \<Longrightarrow> P (hps ! j) \<Longrightarrow> \<not> js_lt (G (hps ! j)) (G (hps ! i))"
        and fst: "\<And>j. j < i \<Longrightarrow> P (hps ! j) \<Longrightarrow> G (hps ! j) \<noteq> G (hps ! i)"
        using R by blast+
      have Pk: "P (hps ! k)" using k some(3) by simp
      show "i = k"
      proof (rule ccontr)
        assume "i \<noteq> k"
        then consider "i < k" | "k < i" by linarith
        then show False
        proof cases
          case 1
          from before [OF 1 Pi] mn [OF k(1) Pk] show False using k by simp
        next
          case 2
          from after [OF 2 i Pi] have a: "\<not> js_lt (G (hps ! i)) (G r)" .
          from mn [OF k(1) Pk] have b: "\<not> js_lt (G r) (G (hps ! i))" using k by simp
          from js_lt_total [OF PN [OF Pi] PN [OF some(3)]] a b have "G (hps ! i) = G r" by blast
          with fst [OF 2 Pk] show False using k by simp
        qed
      qed
    qed
    with L show ?thesis by simp
  qed
qed


lemma makeHoverPoint_Inr:
  assumes "makeHoverPoint stacked st ts series = Inr h"
  shows "\<exists>d. getDatapointAtTimestamp series ts = Some d \<and>
             hp_graphValue h = getDatapointGraphValue stacked st d \<and>
             hp_value h = dp_value d \<and> hp_key h = s_key series \<and>
             hp_name h = s_name series \<and> hp_color h = s_color series"
  using assms by (auto simp: makeHoverPoint_def split: option.splits)

lemma hover_points_of_visible:
  assumes "mapM_err (makeHoverPoint stacked st ts) vis = Inr hps"
  shows "length hps = length vis \<and>
         (\<forall>i<length vis. \<exists>d. getDatapointAtTimestamp (vis ! i) ts = Some d \<and>
             hp_graphValue (hps ! i) = getDatapointGraphValue stacked st d \<and>
             hp_value (hps ! i) = dp_value d \<and> hp_key (hps ! i) = s_key (vis ! i) \<and>
             hp_name (hps ! i) = s_name (vis ! i) \<and> hp_color (hps ! i) = s_color (vis ! i))"
  using mapM_err_Inr [OF assms] makeHoverPoint_Inr by (metis (no_types, lifting))

lemma handleGraphMouseMove_Inr:
  assumes "handleGraphMouseMove p st c x = Inr st'"
  shows "\<exists>hps. mapM_err (makeHoverPoint (showStacked p) st (hoverTimestampSec st'))
                  (getVisibleMultiSeries st) = Inr hps \<and>
               hoverPoints st' = Some (resolveFocus (showStacked p) (simpleTooltip p) c hps) \<and>
               quantizeAt p x = Inr (hoverTimestampSec st')"
  using assms by (auto simp: handleGraphMouseMove_def quantizeAt_def Let_def split: sum.splits)

lemma withFocus_fields:
  "hp_graphValue (withFocus fs s) = hp_graphValue s" "hp_value (withFocus fs s) = hp_value s"
  "hp_key (withFocus fs s) = hp_key s" "hp_name (withFocus fs s) = hp_name s"
  "hp_color (withFocus fs s) = hp_color s"
  by (simp_all add: withFocus_def)

text \<open>
  Claim C3. In stacked mode, for every cursor position and every visible
  series with distinct keys, a successful hover resolution marks the series
  at position \<open>i\<close> focused exactly when its graph position (offset plus
  value at the hovered timestamp) is at least the cursor value, no series
  whose graph position is at least the cursor value has a smaller one, and
  no earlier such series has the same one. So the focused series is the one
  with the smallest graph position among those at or above the cursor (the
  first of them on a tie), and no series is focused when none is at or above
  the cursor. With a simple tooltip the marked points are then filtered to
  the focused one.
\<close>

theorem stacked_focus_smallest_above_cursor:
  assumes stacked: "showStacked p"
    and ok: "handleGraphMouseMove p st c x = Inr st'"
    and keys: "distinct (map s_key (getVisibleMultiSeries st))"
  shows "\<exists>marked.
           hoverPoints st' = Some (if simpleTooltip p then filter hp_focused marked else marked) \<and>
           length marked = length (getVisibleMultiSeries st) \<and>
           (\<forall>i<length marked.
              hp_key (marked ! i) = s_key (getVisibleMultiSeries st ! i) \<and>
              (\<exists>d. getDatapointAtTimestamp (getVisibleMultiSeries st ! i) (hoverTimestampSec st') = Some d \<and>
                   hp_graphValue (marked ! i) =
                     Some (js_add (getDatapointOffset st d) (toNumber (dp_value d)))) \<and>
              (hp_focused (marked ! i) \<longleftrightarrow>
                 js_ge (toNumber (hp_graphValue (marked ! i))) c \<and>
                 (\<forall>j<length marked. js_ge (toNumber (hp_graphValue (marked ! j))) c \<longrightarrow>
                    \<not> js_lt (toNumber (hp_graphValue (marked ! j))) (toNumber (hp_graphValue (marked ! i)))) \<and>
                 (\<forall>j<i. js_ge (toNumber (hp_graphValue (marked ! j))) c \<longrightarrow>
                    toNumber (hp_graphValue (marked ! j)) \<noteq> toNumber (hp_graphValue (marked ! i)))))"
proof -
  let ?vis = "getVisibleMultiSeries st"
  from handleGraphMouseMove_Inr [OF ok] stacked obtain hps where
    hps: "mapM_err (makeHoverPoint True st (hoverTimestampSec st')) ?vis = Inr hps"
    and hp: "hoverPoints st' = Some (resolveFocus True (simpleTooltip p) c hps)"
    by auto
  note hv = hover_points_of_visible [OF hps]
  have len: "length hps = length ?vis" using hv by simp
  have keymap: "map hp_key hps = map s_key ?vis"
  proof (rule nth_equalityI)
    show "length (map hp_key hps) = length (map s_key ?vis)" using len by simp
    fix i assume "i < length (map hp_key hps)"
    then have "i < length ?vis" "i < length hps" using len by simp_all
    moreover from this hv have "hp_key (hps ! i) = s_key (?vis ! i)" by blast
    ultimately show "map hp_key hps ! i = map s_key ?vis ! i" by simp
  qed
  have dk: "distinct (map hp_key hps)"
    using keys by (simp add: keymap)
  have gv: "\<forall>h \<in> set hps. hp_graphValue h \<noteq> None"
  proof
    fix h assume "h \<in> set hps"
    then obtain i where i: "i < length hps" "hps ! i = h" by (auto simp: in_set_conv_nth)
    with hv len obtain d where "hp_graphValue h = getDatapointGraphValue True st d"
      by metis
    then show "hp_graphValue h \<noteq> None"
      by (simp add: getDatapointGraphValue_def)
  qed
  define marked where "marked = map (withFocus (focusedSeries True c hps)) hps"
  have m1: "hoverPoints st' = Some (if simpleTooltip p then filter hp_focused marked else marked)"
    by (simp add: hp resolveFocus_def marked_def Let_def)
  have m2: "length marked = length ?vis" by (simp add: marked_def len)
  have m3: "hp_key (marked ! i) = s_key (?vis ! i) \<and>
            (\<exists>d. getDatapointAtTimestamp (?vis ! i) (hoverTimestampSec st') = Some d \<and>
                   hp_graphValue (marked ! i) =
                     Some (js_add (getDatapointOffset st d) (toNumber (dp_value d)))) \<and>
            (hp_focused (marked ! i) \<longleftrightarrow>
                 js_ge (toNumber (hp_graphValue (marked ! i))) c \<and>
                 (\<forall>j<length marked. js_ge (toNumber (hp_graphValue (marked ! j))) c \<longrightarrow>
                    \<not> js_lt (toNumber (hp_graphValue (marked ! j))) (toNumber (hp_graphValue (marked ! i)))) \<and>
                 (\<forall>j<i. js_ge (toNumber (hp_graphValue (marked ! j))) c \<longrightarrow>
                    toNumber (hp_graphValue (marked ! j)) \<noteq> toNumber (hp_graphValue (marked ! i))))"
    if i: "i < length marked" for i
  proof -
    have il: "i < length hps" "i < length ?vis" using i m2 len by simp_all
    have g: "hp_graphValue (marked ! j) = hp_graphValue (hps ! j)" if "j < length hps" for j
      using that by (simp add: marked_def withFocus_fields)
    from hv il(2) obtain d where d: "getDatapointAtTimestamp (?vis ! i) (hoverTimestampSec st') = Some d"
        "hp_graphValue (hps ! i) = getDatapointGraphValue True st d" "hp_key (hps ! i) = s_key (?vis ! i)"
      by blast
    have a: "hp_key (marked ! i) = s_key (?vis ! i)"
      using d(3) il by (simp add: marked_def withFocus_fields)
    have b: "\<exists>d. getDatapointAtTimestamp (?vis ! i) (hoverTimestampSec st') = Some d \<and>
                   hp_graphValue (marked ! i) =
                     Some (js_add (getDatapointOffset st d) (toNumber (dp_value d)))"
      using d(1,2) g [OF il(1)] by (simp add: getDatapointGraphValue_def)
    have f: "hp_focused (marked ! i) = hp_focused (withFocus (focusedSeries True c hps) (hps ! i))"
      using il by (simp add: marked_def)
    have lm: "length marked = length hps" by (simp add: marked_def)
    have c: "hp_focused (marked ! i) \<longleftrightarrow>
                 js_ge (toNumber (hp_graphValue (marked ! i))) c \<and>
                 (\<forall>j<length marked. js_ge (toNumber (hp_graphValue (marked ! j))) c \<longrightarrow>
                    \<not> js_lt (toNumber (hp_graphValue (marked ! j))) (toNumber (hp_graphValue (marked ! i)))) \<and>
                 (\<forall>j<i. js_ge (toNumber (hp_graphValue (marked ! j))) c \<longrightarrow>
                    toNumber (hp_graphValue (marked ! j)) \<noteq> toNumber (hp_graphValue (marked ! i)))"
      unfolding f focus_stacked_index [OF dk gv il(1)] lm
      using g il(1) by auto
    from a b c show ?thesis by (intro conjI)
  qed
  show ?thesis
  proof (intro exI [of _ marked] conjI allI impI)
    show "hoverPoints st' = Some (if simpleTooltip p then filter hp_focused marked else marked)"
      by (rule m1)
    show "length marked = length ?vis" by (rule m2)
  qed (use m3 in blast)+
qed

lemma stackedPair_mount: "componentWillMount stackedPair = Inr stackedPairMounted"
  by code_simp


text \<open>
  Claim C3 on its scenario: two stacked series with the values \<open>3\<close> and
  \<open>4\<close>, so the tops \<open>3\<close> and \<open>7\<close>, and the cursor value \<open>5\<close>. The series
  with offset \<open>3\<close> and value \<open>4\<close> is focused.
\<close>

theorem stacked_focus_smallest_above_cursor_witness:
  "showStacked stackedPair \<and>
   handleGraphMouseMove stackedPair stackedPairMounted (Fin 5) 0 = Inr stackedPairHovered \<and>
   distinct (map s_key (getVisibleMultiSeries stackedPairMounted)) \<and>
   (\<exists>marked.
      hoverPoints stackedPairHovered =
        Some (if simpleTooltip stackedPair then filter hp_focused marked else marked) \<and>
      length marked = length (getVisibleMultiSeries stackedPairMounted) \<and>
      (\<forall>i<length marked.
         hp_key (marked ! i) = s_key (getVisibleMultiSeries stackedPairMounted ! i) \<and>
         (\<exists>d. getDatapointAtTimestamp (getVisibleMultiSeries stackedPairMounted ! i)
                (hoverTimestampSec stackedPairHovered) = Some d \<and>
              hp_graphValue (marked ! i) =
                Some (js_add (getDatapointOffset stackedPairMounted d) (toNumber (dp_value d)))) \<and>
         (hp_focused (marked ! i) \<longleftrightarrow>
            js_ge (toNumber (hp_graphValue (marked ! i))) (Fin 5) \<and>
            (\<forall>j<length marked. js_ge (toNumber (hp_graphValue (marked ! j))) (Fin 5) \<longrightarrow>
               \<not> js_lt (toNumber (hp_graphValue (marked ! j))) (toNumber (hp_graphValue (marked ! i)))) \<and>
            (\<forall>j<i. js_ge (toNumber (hp_graphValue (marked ! j))) (Fin 5) \<longrightarrow>
               toNumber (hp_graphValue (marked ! j)) \<noteq> toNumber (hp_graphValue (marked ! i)))))) \<and>
   componentWillMount stackedPair = Inr stackedPairMounted \<and>
   hoverSummary stackedPairHovered =
     Some [(''a'', Some (Fin 3), False), (''b'', Some (Fin 4), True)]"
proof -
  have h1: "showStacked stackedPair"
    by (simp add: stackedPair_def)
  have h2: "handleGraphMouseMove stackedPair stackedPairMounted (Fin 5) 0 = Inr stackedPairHovered"
    by code_simp
  have h3: "distinct (map s_key (getVisibleMultiSeries stackedPairMounted))"
    by code_simp
  note c = stacked_focus_smallest_above_cursor [OF h1 h2 h3]
  have s: "hoverSummary stackedPairHovered =
     Some [(''a'', Some (Fin 3), False), (''b'', Some (Fin 4), True)]"
    by code_simp
  show ?thesis
    by (rule conjI [OF h1 conjI [OF h2 conjI [OF h3 conjI [OF c conjI [OF stackedPair_mount s]]]]])
qed







end
